theory Spec2Isabelle
  imports Complex_Main "HOL-Library.Multiset"
begin

section \<open>Python values used by the batching code\<close>

text \<open>
  The exceptions the modelled functions can raise. \<open>ValueError\<close> carries its message, since
  \<open>make_batchset\<close> raises it with two different messages and \<open>np.random.randint\<close> with
  a third.
\<close>

datatype error =
    ValueError string
  | ZeroDivisionError
  | IndexError
  | AssertionError
  | TypeError
  | AttributeError

text \<open>
  One entry of the \<open>input\<close> or \<open>output\<close> list of an utterance is represented by its
  \<open>shape\<close> field, an ordered pair (length, dimension). An utterance record is the value the
  corpus dictionary holds for an utterance id; the corpus is the list \<open>data.items()\<close> in
  the dictionary's iteration order.
\<close>

type_synonym shape = "int \<times> int"

record utt =
  utt_input :: "shape list"
  utt_output :: "shape list"

type_synonym item = "string \<times> utt"

type_synonym corpus = "item list"

text \<open>
  A random source is the sequence of raw draws it is going to deliver. Consuming \<open>k\<close> draws
  shifts the sequence.
\<close>

type_synonym rng = "nat \<Rightarrow> nat"

definition rng_drop :: "nat \<Rightarrow> rng \<Rightarrow> rng" where
  "rng_drop k g = (\<lambda>i. g (i + k))"

definition const_rng :: "nat \<Rightarrow> rng" where
  "const_rng c = (\<lambda>i. c)"

text \<open>\<open>xs[i]\<close>: a negative index counts from the end, an index out of range raises.\<close>

definition py_index :: "'a list \<Rightarrow> int \<Rightarrow> error + 'a" where
  "py_index xs i =
     (if 0 \<le> i \<and> i < int (length xs) then Inr (xs ! nat i)
      else if i < 0 \<and> - int (length xs) \<le> i then Inr (xs ! nat (int (length xs) + i))
      else Inl IndexError)"

text \<open>\<open>xs[a:b]\<close>: negative bounds count from the end, then both are clamped to the list.\<close>

definition slice_bound :: "nat \<Rightarrow> int \<Rightarrow> nat" where
  "slice_bound n i = (if i < 0 then nat (max 0 (int n + i)) else min n (nat i))"

definition py_slice :: "'a list \<Rightarrow> int \<Rightarrow> int \<Rightarrow> 'a list" where
  "py_slice xs a b =
     (let lo = slice_bound (length xs) a; hi = slice_bound (length xs) b
      in take (hi - lo) (drop lo xs))"

text \<open>
  \<open>int(a / b)\<close>: true division, then truncation towards zero. Division by zero raises.
  The quotient is taken exactly (the rounding of the intermediate float is not modelled).
\<close>

definition int_truediv :: "int \<Rightarrow> int \<Rightarrow> error + int" where
  "int_truediv a b =
     (if b = 0 then Inl ZeroDivisionError
      else Inr (sgn a * sgn b * (\<bar>a\<bar> div \<bar>b\<bar>)))"

text \<open>A list comprehension whose element expression may raise: the first exception wins.\<close>

fun sequence :: "(error + 'a) list \<Rightarrow> error + 'a list" where
  "sequence [] = Inr []"
| "sequence (r # rs) =
     (case r of
        Inl e \<Rightarrow> Inl e
      | Inr x \<Rightarrow> (case sequence rs of Inl e \<Rightarrow> Inl e | Inr xs \<Rightarrow> Inr (x # xs)))"

text \<open>
  \<open>sorted(xs, key=key, reverse=reverse)\<close>: the keys are computed first, for every element;
  the sort is stable, and \<open>reverse\<close> keeps the original order of elements with equal keys
  (the list is reversed, sorted and reversed again).
\<close>

definition py_sorted :: "('a \<Rightarrow> error + int) \<Rightarrow> bool \<Rightarrow> 'a list \<Rightarrow> error + 'a list" where
  "py_sorted key reverse xs =
     (case sequence (map key xs) of
        Inl e \<Rightarrow> Inl e
      | Inr ks \<Rightarrow>
          Inr (map snd
            (if reverse then rev (sort_key fst (rev (zip ks xs)))
             else sort_key fst (zip ks xs))))"

text \<open>
  \<open>random.sample(population, len(population))\<close>: the pool algorithm of the standard
  library. Draw \<open>j\<close> below the size of the pool, emit \<open>pool[j]\<close>, move the last element of
  the pool to position \<open>j\<close> and shrink the pool by one.
\<close>

fun random_sample :: "rng \<Rightarrow> nat \<Rightarrow> 'a list \<Rightarrow> 'a list" where
  "random_sample g i pool =
     (if pool = [] then []
      else (let j = g i mod length pool
            in pool ! j # random_sample g (Suc i) (butlast (pool[j := last pool]))))"

declare random_sample.simps [simp del]

text \<open>
  \<open>np.random.randint(low, high, size)\<close>: \<open>size\<close> integers in \<open>[low, high)\<close>; an empty
  range raises.
\<close>

definition randint :: "int \<Rightarrow> int \<Rightarrow> int \<Rightarrow> rng \<Rightarrow> error + (int list \<times> rng)" where
  "randint low high size' g =
     (if high \<le> low then Inl (ValueError ''low >= high'')
      else if size' < 0 then Inl (ValueError ''negative dimensions are not allowed'')
      else Inr (map (\<lambda>i. low + int (g i mod nat (high - low))) [0..<nat size'],
                rng_drop (nat size') g))"

section \<open>make_batchset\<close>

text \<open>\<open>int(v[0]['shape'][0])\<close> for \<open>v\<close> the \<open>input\<close> or \<open>output\<close> list of a record.\<close>

definition first_len :: "shape list \<Rightarrow> error + int" where
  "first_len v = (case v of [] \<Rightarrow> Inl IndexError | s # _ \<Rightarrow> Inr (fst s))"

text \<open>
  The first statement of \<open>make_batchset\<close>: order the items by \<open>batch_sort_key\<close>. For the
  key \<open>input\<close> the length is read from the \<open>output\<close> field and for the key \<open>output\<close>
  from the \<open>input\<close> field.
\<close>

definition sort_data :: "corpus \<Rightarrow> string \<Rightarrow> bool \<Rightarrow> rng \<Rightarrow> error + item list" where
  "sort_data data batch_sort_key shortest_first py_rng =
     (if batch_sort_key = ''shuffle'' then Inr (random_sample py_rng 0 data)
      else if batch_sort_key = ''input'' then
        py_sorted (\<lambda>d. first_len (utt_output (snd d))) (\<not> shortest_first) data
      else if batch_sort_key = ''output'' then
        py_sorted (\<lambda>d. first_len (utt_input (snd d))) (\<not> shortest_first) data
      else Inl (ValueError ''batch_sort_key should be selected from None, input, and output.''))"

text \<open>The computation of \<open>end\<close> at the top of the loop body.\<close>

definition window_end ::
  "item list \<Rightarrow> int \<Rightarrow> int \<Rightarrow> int \<Rightarrow> string \<Rightarrow> int \<Rightarrow> error + int" where
  "window_end sorted_data batch_size max_length_in max_length_out batch_sort_key start =
     (if batch_sort_key = ''shuffle'' then
        Inr (min (int (length sorted_data)) (start + batch_size))
      else
        (case py_index sorted_data start of Inl e \<Rightarrow> Inl e | Inr d \<Rightarrow>
         (case first_len (utt_output (snd d)) of Inl e \<Rightarrow> Inl e | Inr ilen \<Rightarrow>
         (case first_len (utt_input (snd d)) of Inl e \<Rightarrow> Inl e | Inr olen \<Rightarrow>
         (case int_truediv ilen max_length_in of Inl e \<Rightarrow> Inl e | Inr fi \<Rightarrow>
         (case int_truediv olen max_length_out of Inl e \<Rightarrow> Inl e | Inr fo \<Rightarrow>
         (let factor = max fi fo in
          case int_truediv batch_size (1 + factor) of Inl e \<Rightarrow> Inl e | Inr q \<Rightarrow>
          (let bs = max 1 q in
           Inr (min (int (length sorted_data)) (start + bs))))))))))"

text \<open>
  The rest of the loop body up to \<open>minibatches.append\<close>: cut the window, reverse it for
  \<open>shortest_first\<close>, and pad a window shorter than \<open>min_batch_size\<close> with items at random
  indices below \<open>start\<close>.
\<close>

definition make_minibatch ::
  "item list \<Rightarrow> int \<Rightarrow> int \<Rightarrow> int \<Rightarrow> bool \<Rightarrow> rng \<Rightarrow> error + (item list \<times> rng)" where
  "make_minibatch sorted_data start end' min_batch_size shortest_first g =
     (let minibatch = py_slice sorted_data start end';
          minibatch = (if shortest_first then rev minibatch else minibatch)
      in if int (length minibatch) < min_batch_size then
           (let md = min_batch_size - int (length minibatch) mod min_batch_size in
            case randint 0 start md g of Inl e \<Rightarrow> Inl e | Inr (idx, g') \<Rightarrow>
            (case sequence (map (py_index sorted_data) idx) of Inl e \<Rightarrow> Inl e
             | Inr additional_minibatch \<Rightarrow>
                 Inr (minibatch @
                        (if shortest_first then rev additional_minibatch
                         else additional_minibatch), g')))
         else Inr (minibatch, g))"

text \<open>
  The \<open>while True\<close> loop. It need not terminate (a batch size of zero with the key
  \<open>shuffle\<close> never advances), so the result is an option: \<open>None\<close> is a run that never
  returns.
\<close>

partial_function (option) batch_loop ::
  "item list \<Rightarrow> int \<Rightarrow> int \<Rightarrow> int \<Rightarrow> string \<Rightarrow> int \<Rightarrow> bool \<Rightarrow>
   int \<Rightarrow> rng \<Rightarrow> item list list \<Rightarrow> (error + item list list) option" where
  "batch_loop sorted_data batch_size max_length_in max_length_out batch_sort_key
              min_batch_size shortest_first start g minibatches =
     (case window_end sorted_data batch_size max_length_in max_length_out batch_sort_key start of
        Inl e \<Rightarrow> Some (Inl e)
      | Inr end' \<Rightarrow>
          (case make_minibatch sorted_data start end' min_batch_size shortest_first g of
             Inl e \<Rightarrow> Some (Inl e)
           | Inr (minibatch, g') \<Rightarrow>
               if end' = int (length sorted_data) then Some (Inr (minibatches @ [minibatch]))
               else batch_loop sorted_data batch_size max_length_in max_length_out batch_sort_key
                      min_batch_size shortest_first end' g' (minibatches @ [minibatch])))"

declare batch_loop.simps [code]

definition make_batchset ::
  "corpus \<Rightarrow> int \<Rightarrow> int \<Rightarrow> int \<Rightarrow> int \<Rightarrow> string \<Rightarrow> int \<Rightarrow> bool \<Rightarrow> rng \<Rightarrow> rng \<Rightarrow>
   (error + item list list) option" where
  "make_batchset data batch_size max_length_in max_length_out num_batches batch_sort_key
                 min_batch_size shortest_first py_rng np_rng =
     (case sort_data data batch_sort_key shortest_first py_rng of
        Inl e \<Rightarrow> Some (Inl e)
      | Inr sorted_data \<Rightarrow>
          if int (length sorted_data) < min_batch_size then
            Some (Inl (ValueError ''#utts is less than min_batch_size.''))
          else
            (case batch_loop sorted_data batch_size max_length_in max_length_out batch_sort_key
                    min_batch_size shortest_first 0 np_rng [] of
               None \<Rightarrow> None
             | Some (Inl e) \<Rightarrow> Some (Inl e)
             | Some (Inr minibatches) \<Rightarrow>
                 Some (Inr (if num_batches > 0 then take (nat num_batches) minibatches
                            else minibatches))))"

text \<open>
  The plans the loop can produce from offset \<open>start\<close> on, for any state of the random
  source: the relation that the loop satisfies whenever it returns.
\<close>

inductive plan_from ::
  "item list \<Rightarrow> int \<Rightarrow> int \<Rightarrow> int \<Rightarrow> string \<Rightarrow> int \<Rightarrow> bool \<Rightarrow> int \<Rightarrow> item list list \<Rightarrow> bool"
  for sorted_data batch_size max_length_in max_length_out batch_sort_key min_batch_size
      shortest_first
  where
    last_batch:
      "window_end sorted_data batch_size max_length_in max_length_out batch_sort_key start
         = Inr end' \<Longrightarrow>
       make_minibatch sorted_data start end' min_batch_size shortest_first g
         = Inr (minibatch, g') \<Longrightarrow>
       end' = int (length sorted_data) \<Longrightarrow>
       plan_from sorted_data batch_size max_length_in max_length_out batch_sort_key
         min_batch_size shortest_first start [minibatch]"
  | next_batch:
      "window_end sorted_data batch_size max_length_in max_length_out batch_sort_key start
         = Inr end' \<Longrightarrow>
       make_minibatch sorted_data start end' min_batch_size shortest_first g
         = Inr (minibatch, g') \<Longrightarrow>
       end' \<noteq> int (length sorted_data) \<Longrightarrow>
       plan_from sorted_data batch_size max_length_in max_length_out batch_sort_key
         min_batch_size shortest_first end' rest \<Longrightarrow>
       plan_from sorted_data batch_size max_length_in max_length_out batch_sort_key
         min_batch_size shortest_first start (minibatch # rest)"

text \<open>
  A record is well formed when both of its lists have a first entry and the two lengths
  are not negative.
\<close>

definition well_formed :: "item \<Rightarrow> bool" where
  "well_formed d \<longleftrightarrow>
     (\<exists>ilen olen. first_len (utt_output (snd d)) = Inr ilen \<and> 0 \<le> ilen \<and>
                  first_len (utt_input (snd d)) = Inr olen \<and> 0 \<le> olen)"

section \<open>Example corpora\<close>

text \<open>
  \<open>mk_utt in_len out_len\<close> is a record whose \<open>output\<close> field carries the length the
  code calls the input length, and whose \<open>input\<close> field carries the output length.
  \<open>example_corpus\<close> is the two-utterance corpus with input lengths 100 and 50.
\<close>

definition mk_utt :: "int \<Rightarrow> int \<Rightarrow> utt" where
  "mk_utt in_len out_len = \<lparr>utt_input = [(out_len, 80)], utt_output = [(in_len, 40)]\<rparr>"

definition example_corpus :: "int \<Rightarrow> int \<Rightarrow> corpus" where
  "example_corpus o1 o2 = [(''u1'', mk_utt 100 o1), (''u2'', mk_utt 50 o2)]"

definition corpus4 :: corpus where
  "corpus4 = [(''a'', mk_utt 7 3), (''b'', mk_utt 9 4), (''c'', mk_utt 5 2), (''d'', mk_utt 8 6)]"

section \<open>CustomConverter\<close>

text \<open>
  An input sequence is the list of its frames (the rows of the array), a frame the list of
  its features. The two casts (\<open>float32\<close> for the features, \<open>int32\<close> for the target
  ids) and the device are parameters; the lengths are kept as integers (the number of rows
  of an array fits \<open>int32\<close>).
\<close>

text \<open>\<open>x[::k, :]\<close> for a positive step: the rows at the indices \<open>0, k, 2k, ...\<close>.\<close>

definition subsample :: "int \<Rightarrow> 'a list \<Rightarrow> 'a list" where
  "subsample k x = map (\<lambda>i. x ! i) (filter (\<lambda>i. int i mod k = 0) [0..<length x])"

definition converter_call ::
  "int \<Rightarrow> ('f \<Rightarrow> 'g) \<Rightarrow> (int \<Rightarrow> 'i) \<Rightarrow> ('f list list list \<times> int list list) list \<Rightarrow> int \<Rightarrow>
   error + ('g list list list \<times> int list \<times> 'i list list)" where
  "converter_call subsampling_factor float32 int32 batch device =
     (case batch of
        [(xs, ys)] \<Rightarrow>
          (let xs = (if subsampling_factor > 1 then map (subsample subsampling_factor) xs
                     else xs);
               ilens = map (\<lambda>x. int (length x)) xs
           in Inr (map (map (map float32)) xs, ilens, map (map int32) ys))
      | _ \<Rightarrow> Inl AssertionError)"

definition example_inputs :: "int list list list" where
  "example_inputs = [[[1, 10], [2, 20], [3, 30], [4, 40], [5, 50]], [[6, 60], [7, 70]]]"

definition example_targets :: "int list list" where
  "example_targets = [[3, 1], [2]]"

section \<open>Shards for the multi-GPU updater\<close>

text \<open>
  The branch \<open>ngpu > 1\<close> of \<open>train\<close>. \<open>json_subset\<close> is the dictionary comprehension
  that selects the entries whose enumeration index is \<open>gid\<close> modulo \<open>ngpu\<close>.
  \<open>make_batchset_asr\<close> stands for the call of \<open>espnet.asr.asr_utils.make_batchset\<close> with
  the arguments of the run; that module is not among the sources, so the function is a
  parameter. \<open>extend_subset i r s\<close> is the loop \<open>train_subset += [train_subset[i]]\<close> with
  \<open>r\<close> iterations left, and \<open>py_max\<close> the builtin \<open>max\<close> on a non-empty list.
\<close>

definition json_subset :: "nat \<Rightarrow> nat \<Rightarrow> 'a list \<Rightarrow> 'a list" where
  "json_subset ngpu gid train_json =
     map snd (filter (\<lambda>(i, kv). i mod ngpu = gid) (enumerate 0 train_json))"

fun extend_subset :: "nat \<Rightarrow> nat \<Rightarrow> 'b list \<Rightarrow> error + 'b list" where
  "extend_subset i 0 train_subset = Inr train_subset"
| "extend_subset i (Suc r) train_subset =
     (if i < length train_subset
      then extend_subset (Suc i) r (train_subset @ [train_subset ! i])
      else Inl IndexError)"

definition py_max :: "nat list \<Rightarrow> nat" where
  "py_max ls = Max (set ls)"

definition equalize_subsets :: "'b list list \<Rightarrow> error + 'b list list" where
  "equalize_subsets train_subsets =
     (if train_subsets = [] then Inl (ValueError ''max() arg is an empty sequence'')
      else
        (let maxlen = py_max (map length train_subsets) in
         sequence (map (\<lambda>train_subset.
                          if maxlen \<noteq> length train_subset
                          then extend_subset 0 (maxlen - length train_subset) train_subset
                          else Inr train_subset)
                       train_subsets)))"

definition train_subsets ::
  "('a list \<Rightarrow> error + 'b list) \<Rightarrow> nat \<Rightarrow> 'a list \<Rightarrow> error + 'b list list" where
  "train_subsets make_batchset_asr ngpu train_json =
     (case sequence (map (\<lambda>gid. make_batchset_asr (json_subset ngpu gid train_json)) [0..<ngpu]) of
        Inl e \<Rightarrow> Inl e
      | Inr subsets \<Rightarrow> equalize_subsets subsets)"

definition one_per_batch :: "'a list \<Rightarrow> error + 'a list list" where
  "one_per_batch train_json_subset = Inr (map (\<lambda>x. [x]) train_json_subset)"

definition five_utts :: "string list" where
  "five_utts = [''a'', ''b'', ''c'', ''d'', ''e'']"

section \<open>Floating-point values\<close>

text \<open>
  A float is NaN, one of the two infinities, or finite; a finite float is represented by
  the real number it denotes. The operations follow IEEE 754 on NaN and the infinities;
  rounding and overflow of finite results are not represented.
\<close>

datatype fl = Fin real | PInf | NInf | NaN

fun fl_add :: "fl \<Rightarrow> fl \<Rightarrow> fl" where
  "fl_add NaN y = NaN"
| "fl_add x NaN = NaN"
| "fl_add (Fin a) (Fin b) = Fin (a + b)"
| "fl_add PInf NInf = NaN"
| "fl_add NInf PInf = NaN"
| "fl_add PInf y = PInf"
| "fl_add x PInf = PInf"
| "fl_add NInf y = NInf"
| "fl_add x NInf = NInf"

fun fl_scale :: "real \<Rightarrow> fl \<Rightarrow> fl" where
  "fl_scale a NaN = NaN"
| "fl_scale a (Fin b) = Fin (a * b)"
| "fl_scale a PInf = (if a = 0 then NaN else if 0 < a then PInf else NInf)"
| "fl_scale a NInf = (if a = 0 then NaN else if 0 < a then NInf else PInf)"

fun fl_mul :: "fl \<Rightarrow> fl \<Rightarrow> fl" where
  "fl_mul NaN y = NaN"
| "fl_mul (Fin a) y = fl_scale a y"
| "fl_mul x (Fin b) = fl_scale b x"
| "fl_mul x NaN = NaN"
| "fl_mul PInf PInf = PInf"
| "fl_mul PInf NInf = NInf"
| "fl_mul NInf PInf = NInf"
| "fl_mul NInf NInf = PInf"

fun fl_less :: "fl \<Rightarrow> fl \<Rightarrow> bool" where
  "fl_less NaN y = False"
| "fl_less x NaN = False"
| "fl_less (Fin a) (Fin b) = (a < b)"
| "fl_less x NInf = False"
| "fl_less PInf y = False"
| "fl_less NInf y = True"
| "fl_less x PInf = True"

fun fl_sqrt :: "fl \<Rightarrow> fl" where
  "fl_sqrt (Fin a) = (if a < 0 then NaN else Fin (sqrt a))"
| "fl_sqrt PInf = PInf"
| "fl_sqrt NInf = NaN"
| "fl_sqrt NaN = NaN"

definition isnan :: "fl \<Rightarrow> bool" where
  "isnan x \<longleftrightarrow> x = NaN"

section \<open>The updaters\<close>

text \<open>
  A gradient \<open>p.grad\<close> is \<open>None\<close> or an array, given by the id of its device and its
  flattened values. \<open>sum_sqnorm\<close> accumulates the squared norms in a dictionary keyed by
  the device (an association list in insertion order) and sums its values.

  The iterator, the converter, the model, the backward pass and the optimizer belong to
  the framework and are parameters: \<open>forward\<close> computes the loss from the parameters and
  the converted batch, \<open>backward\<close> the gradients that \<open>cleargrads\<close>, \<open>loss.backward\<close> and
  \<open>unchain_backward\<close> leave on the parameters (neither pass writes a parameter value),
  and \<open>optimizer_update\<close> the parameter values after one step of the optimizer, hooks
  included. The counter \<open>opt_t\<close> is the optimizer's count of its \<open>update\<close> calls.
  \<open>apply_or_skip\<close> is the gradient check that closes both \<open>update_core\<close> methods. In the
  parallel updater \<open>comm\<close>, when present, is the reduction of the gradients of all
  devices onto the master; the broadcast that follows the update writes the master's
  parameters to the other devices and leaves the master unchanged.
\<close>

type_synonym grad = "(int \<times> fl list) option"

definition dot :: "fl list \<Rightarrow> fl" where
  "dot x = foldl fl_add (Fin 0) (map (\<lambda>a. fl_mul a a) x)"

fun sq_sum_add :: "(int \<times> fl) list \<Rightarrow> int \<Rightarrow> fl \<Rightarrow> (int \<times> fl) list" where
  "sq_sum_add [] dev s = [(dev, fl_add (Fin 0) s)]"
| "sq_sum_add ((d, v) # sq_sum) dev s =
     (if d = dev then (d, fl_add v s) # sq_sum else (d, v) # sq_sum_add sq_sum dev s)"

definition sum_sqnorm :: "grad list \<Rightarrow> fl" where
  "sum_sqnorm arr =
     foldl fl_add (Fin 0)
       (map snd
         (foldl (\<lambda>sq_sum x. case x of None \<Rightarrow> sq_sum
                                     | Some (dev, data) \<Rightarrow> sq_sum_add sq_sum dev (dot data))
                [] arr))"

definition grad_norm_of :: "grad list \<Rightarrow> fl" where
  "grad_norm_of grads = fl_sqrt (sum_sqnorm grads)"

record ('p, 'it) updater =
  train_iter :: 'it
  target_params :: 'p
  target_grads :: "grad list"
  opt_t :: nat

record ('p, 'it, 'b, 'x, 'l) chainer_env =
  iter_next :: "'it \<Rightarrow> 'b \<times> 'it"
  converter :: "'b \<Rightarrow> int \<Rightarrow> error + 'x"
  forward :: "'p \<Rightarrow> 'x \<Rightarrow> 'l"
  backward :: "'p \<Rightarrow> 'l \<Rightarrow> grad list"
  optimizer_update :: "'p \<Rightarrow> grad list \<Rightarrow> 'p"

definition apply_or_skip ::
  "('p, 'it, 'b, 'x, 'l) chainer_env \<Rightarrow> grad list \<Rightarrow> ('p, 'it) updater \<Rightarrow> ('p, 'it) updater" where
  "apply_or_skip env grads u =
     (let grad_norm = grad_norm_of grads in
      if isnan grad_norm then u\<lparr>target_grads := grads\<rparr>
      else u\<lparr>target_grads := grads,
             target_params := optimizer_update env (target_params u) grads,
             opt_t := Suc (opt_t u)\<rparr>)"

definition update_core ::
  "('p, 'it, 'b, 'x, 'l) chainer_env \<Rightarrow> int \<Rightarrow> ('p, 'it) updater \<Rightarrow> error + ('p, 'it) updater" where
  "update_core env device u =
     (case iter_next env (train_iter u) of (batch, it') \<Rightarrow>
      (case converter env batch device of
         Inl e \<Rightarrow> Inl e
       | Inr x \<Rightarrow>
           (let loss = forward env (target_params u) x;
                grads = backward env (target_params u) loss
            in Inr (apply_or_skip env grads (u\<lparr>train_iter := it'\<rparr>)))))"

definition parallel_update_core ::
  "('p, 'it, 'b, 'x, 'l) chainer_env \<Rightarrow> int \<Rightarrow> (grad list \<Rightarrow> grad list) option \<Rightarrow>
   ('p, 'it) updater \<Rightarrow> error + ('p, 'it) updater" where
  "parallel_update_core env device0 comm u =
     (case iter_next env (train_iter u) of (batch, it') \<Rightarrow>
      (case converter env batch device0 of
         Inl e \<Rightarrow> Inl e
       | Inr x \<Rightarrow>
           (let loss = forward env (target_params u) x;
                grads = backward env (target_params u) loss;
                grads = (case comm of None \<Rightarrow> grads | Some reduce \<Rightarrow> reduce grads)
            in Inr (apply_or_skip env grads (u\<lparr>train_iter := it'\<rparr>)))))"

text \<open>
  \<open>has_nan\<close>: some gradient array holds a NaN. \<open>sane\<close>: the values a sum of squares can
  take.
\<close>

definition has_nan :: "grad list \<Rightarrow> bool" where
  "has_nan grads \<longleftrightarrow> (\<exists>dev data. Some (dev, data) \<in> set grads \<and> NaN \<in> set data)"

definition sane :: "fl \<Rightarrow> bool" where
  "sane x \<longleftrightarrow> x = NaN \<or> x = PInf \<or> (\<exists>a\<ge>0. x = Fin a)"

text \<open>
  A small instance: one scalar parameter, an iterator that counts, a model whose loss is
  the constant \<open>g\<close>, gradients \<open>[g, 1]\<close> on device 0, and an optimizer that subtracts 1.
\<close>

definition toy_env :: "fl \<Rightarrow> (real, nat, nat, nat, fl) chainer_env" where
  "toy_env g =
     \<lparr>iter_next = (\<lambda>i. (i, Suc i)), converter = (\<lambda>b d. Inr b), forward = (\<lambda>p x. g),
      backward = (\<lambda>p l. [Some (0, [l, Fin 1])]), optimizer_update = (\<lambda>p gr. p - 1)\<rparr>"

definition toy_updater :: "(real, nat) updater" where
  "toy_updater = \<lparr>train_iter = 0, target_params = 5, target_grads = [], opt_t = 0\<rparr>"

section \<open>E2E forward\<close>

text \<open>
  The encoder, the CTC module and the decoder are parameters. \<open>reported\<close> is the list of
  observations the reporter has received. \<open>self_acc\<close> and \<open>self_loss\<close> are the attributes
  \<open>acc\<close> and \<open>loss\<close> of the model object. The result is the loss alone or, with
  \<open>flag_return\<close>, the tuple of the loss, the two partial losses and the accuracy.
\<close>

record ('xs, 'il, 'ys, 'h) e2e_nets =
  enc :: "'xs \<Rightarrow> 'il \<Rightarrow> 'h \<times> 'il"
  ctc :: "'h \<Rightarrow> 'ys \<Rightarrow> fl"
  dec :: "'h \<Rightarrow> 'ys \<Rightarrow> fl \<times> fl"

record e2e =
  mtlalpha :: real
  flag_return :: bool
  self_acc :: "fl option"
  self_loss :: "fl option"

type_synonym observation = "string \<times> fl option"

datatype e2e_result = Loss fl | LossTuple fl "fl option" "fl option" "fl option"

fun loss_of :: "e2e_result \<Rightarrow> fl" where
  "loss_of (Loss l) = l"
| "loss_of (LossTuple l lc la a) = l"

definition CTC_LOSS_THRESHOLD :: fl where
  "CTC_LOSS_THRESHOLD = Fin 10000"

definition e2e_call ::
  "('xs, 'il, 'ys, 'h) e2e_nets \<Rightarrow> e2e \<Rightarrow> 'xs \<Rightarrow> 'il \<Rightarrow> 'ys \<Rightarrow> observation list \<Rightarrow>
   error + (e2e_result \<times> e2e \<times> observation list)" where
  "e2e_call nets self xs ilens ys reported =
     (case enc nets xs ilens of (hs, ilens') \<Rightarrow>
      (let loss_ctc = (if mtlalpha self = 0 then None else Some (ctc nets hs ys));
           att = (if mtlalpha self = 1 then (None, None)
                  else (case dec nets hs ys of (l, a) \<Rightarrow> (Some l, Some a)));
           loss_att = fst att;
           acc' = snd att;
           alpha = mtlalpha self
       in case (if alpha = 0 then Inr loss_att
                else if alpha = 1 then Inr loss_ctc
                else (case (loss_ctc, loss_att) of
                        (Some c, Some a) \<Rightarrow>
                          Inr (Some (fl_add (fl_scale alpha c) (fl_scale (1 - alpha) a)))
                      | _ \<Rightarrow> Inl TypeError)) of
            Inl e \<Rightarrow> Inl e
          | Inr None \<Rightarrow> Inl AttributeError
          | Inr (Some loss') \<Rightarrow>
              Inr (if flag_return self then LossTuple loss' loss_ctc loss_att acc'
                   else Loss loss',
                   self\<lparr>self_acc := acc', self_loss := Some loss'\<rparr>,
                   if fl_less loss' CTC_LOSS_THRESHOLD \<and> \<not> isnan loss'
                   then reported @ [(''loss_ctc'', loss_ctc), (''loss_att'', loss_att),
                                    (''acc'', acc'), (''loss'', Some loss')]
                   else reported)))"

text \<open>The multi-task loss, written out for the statements below.\<close>

definition mtl_loss :: "('xs, 'il, 'ys, 'h) e2e_nets \<Rightarrow> real \<Rightarrow> 'xs \<Rightarrow> 'il \<Rightarrow> 'ys \<Rightarrow> fl" where
  "mtl_loss nets alpha xs ilens ys =
     (let hs = fst (enc nets xs ilens) in
      if alpha = 0 then fst (dec nets hs ys)
      else if alpha = 1 then ctc nets hs ys
      else fl_add (fl_scale alpha (ctc nets hs ys)) (fl_scale (1 - alpha) (fst (dec nets hs ys))))"

definition toy_nets :: "fl \<Rightarrow> fl \<Rightarrow> (nat, nat, nat, nat) e2e_nets" where
  "toy_nets c a = \<lparr>enc = (\<lambda>xs il. (xs, il)), ctc = (\<lambda>h y. c), dec = (\<lambda>h y. (a, Fin 1))\<rparr>"

definition toy_e2e :: "real \<Rightarrow> e2e" where
  "toy_e2e alpha = \<lparr>mtlalpha = alpha, flag_return = False, self_acc = None, self_loss = None\<rparr>"

section \<open>Facts about the Python primitives\<close>

lemma sequence_Inr: "sequence rs = Inr xs \<Longrightarrow> rs = map Inr xs"
  by (induction rs arbitrary: xs) (auto split: sum.splits)

lemma sequence_map_Inr: "sequence (map Inr xs) = Inr xs"
  by (induction xs) auto

lemma sequence_all_Inr:
  "(\<And>r. r \<in> set rs \<Longrightarrow> \<exists>x. r = Inr x) \<Longrightarrow> \<exists>xs. sequence rs = Inr xs"
  by (induction rs) (auto split: sum.splits)

lemma py_index_Inr:
  "0 \<le> i \<Longrightarrow> py_index xs i = Inr x \<longleftrightarrow> i < int (length xs) \<and> x = xs ! nat i"
  by (auto simp: py_index_def Let_def)

lemma py_index_in_range:
  "0 \<le> i \<Longrightarrow> i < int (length xs) \<Longrightarrow> py_index xs i = Inr (xs ! nat i)"
  by (simp add: py_index_def Let_def)

lemma py_slice_nonneg:
  "0 \<le> a \<Longrightarrow> 0 \<le> b \<Longrightarrow>
   py_slice xs a b = take (min (length xs) (nat b) - min (length xs) (nat a))
                          (drop (min (length xs) (nat a)) xs)"
  by (simp add: py_slice_def slice_bound_def Let_def)

lemma py_slice_window:
  "0 \<le> a \<Longrightarrow> a \<le> b \<Longrightarrow> b \<le> int (length xs) \<Longrightarrow>
   py_slice xs a b = take (nat b - nat a) (drop (nat a) xs)"
  by (simp add: py_slice_nonneg min_def)

lemma length_py_slice_window:
  "0 \<le> a \<Longrightarrow> a \<le> b \<Longrightarrow> b \<le> int (length xs) \<Longrightarrow>
   int (length (py_slice xs a b)) = b - a"
  by (simp add: py_slice_window)

lemma hd_py_slice_window:
  "0 \<le> a \<Longrightarrow> a < b \<Longrightarrow> b \<le> int (length xs) \<Longrightarrow>
   py_slice xs a b \<noteq> [] \<and> hd (py_slice xs a b) = xs ! nat a"
  by (auto simp add: py_slice_window hd_drop_conv_nth)

lemma drop_py_slice:
  assumes h: "0 \<le> a" "a \<le> b" "b \<le> int (length xs)"
  shows "drop (nat a) xs = py_slice xs a b @ drop (nat b) xs"
proof -
  have le: "nat a \<le> nat b" using h by simp
  have "take (nat b - nat a) (drop (nat a) xs) @ drop (nat b - nat a) (drop (nat a) xs)
        = drop (nat a) xs"
    by (rule append_take_drop_id)
  moreover have "drop (nat b - nat a) (drop (nat a) xs) = drop (nat b) xs"
    using le by simp
  ultimately show ?thesis using h by (simp add: py_slice_window)
qed

lemma randint_Inr:
  assumes "randint 0 high sz g = Inr (idx, g')"
  shows "0 < high \<and> 0 \<le> sz \<and> length idx = nat sz \<and> g' = rng_drop (nat sz) g
         \<and> (\<forall>i\<in>set idx. 0 \<le> i \<and> i < high)"
proof -
  from assms have h: "0 < high" "0 \<le> sz"
    and idx: "idx = map (\<lambda>i. int (g i mod nat high)) [0..<nat sz]"
    and g': "g' = rng_drop (nat sz) g"
    by (auto simp: randint_def split: if_splits)
  have "\<forall>i\<in>set idx. 0 \<le> i \<and> i < high"
    using h idx by (auto simp: nat_less_iff [symmetric] zless_nat_eq_int_zless [symmetric])
  then show ?thesis using h idx g' by simp
qed

lemma randint_ok:
  "0 < high \<Longrightarrow> 0 \<le> sz \<Longrightarrow> \<exists>idx g'. randint 0 high sz g = Inr (idx, g')"
  by (simp add: randint_def)

section \<open>The adaptive window\<close>

lemma int_truediv_nonneg:
  "0 \<le> a \<Longrightarrow> 0 < b \<Longrightarrow> int_truediv a b = Inr (a div b)"
  by (cases "a = 0") (simp_all add: int_truediv_def)

lemma int_truediv_max1:
  assumes "0 < b"
  shows "\<exists>q. int_truediv a b = Inr q \<and> max 1 q = max 1 (a div b)"
proof (cases "0 \<le> a")
  case True
  then show ?thesis using assms by (simp add: int_truediv_nonneg)
next
  case False
  then have a: "a < 0" by simp
  have "sgn a * sgn b * (\<bar>a\<bar> div \<bar>b\<bar>) \<le> 0"
    using a assms by (simp add: mult_le_0_iff pos_imp_zdiv_nonneg_iff)
  moreover have "a div b \<le> 0"
    using div_neg_pos_less0 [OF a assms] by simp
  ultimately show ?thesis using assms by (simp add: int_truediv_def)
qed

lemma window_end_formula:
  assumes key: "key \<noteq> ''shuffle''"
    and st: "0 \<le> start" "start < int (length sd)"
    and il: "first_len (utt_output (snd (sd ! nat start))) = Inr ilen"
    and ol: "first_len (utt_input (snd (sd ! nat start))) = Inr olen"
    and nn: "0 \<le> ilen" "0 \<le> olen"
    and pos: "0 < mli" "0 < mlo"
  shows "window_end sd bs mli mlo key start =
         Inr (min (int (length sd))
               (start + max 1 (bs div (1 + max (ilen div mli) (olen div mlo)))))"
proof -
  let ?f = "max (ilen div mli) (olen div mlo)"
  have f0: "0 \<le> ?f"
    using nn pos by (simp add: pos_imp_zdiv_nonneg_iff le_max_iff_disj)
  then have "0 < 1 + ?f" by linarith
  from int_truediv_max1 [OF this, of bs]
  obtain q where q: "int_truediv bs (1 + ?f) = Inr q"
    "max 1 q = max 1 (bs div (1 + ?f))" by blast
  show ?thesis
    using key st il ol q
    by (simp add: window_end_def py_index_in_range int_truediv_nonneg nn pos Let_def)
qed

lemmas eval_defs = make_batchset_def sort_data_def py_sorted_def first_len_def
  batch_loop.simps window_end_def py_index_def int_truediv_def make_minibatch_def
  py_slice_def slice_bound_def randint_def rng_drop_def const_rng_def
  random_sample.simps mk_utt_def Let_def

section \<open>random.sample returns a permutation\<close>

lemma mset_pool_step:
  assumes "pool \<noteq> []" and "j < length pool"
  shows "add_mset (pool ! j) (mset (butlast (pool[j := last pool]))) = mset pool"
proof -
  from assms(1) obtain xs l where pool: "pool = xs @ [l]"
    by (cases pool rule: rev_cases) auto
  show ?thesis
  proof (cases "j < length xs")
    case True
    then have "butlast (pool[j := last pool]) = xs[j := l]"
      by (simp add: pool list_update_append)
    moreover have "pool ! j = xs ! j" using True by (simp add: pool nth_append)
    moreover have "add_mset (xs ! j) (mset (xs[j := l])) = add_mset l (mset xs)"
      using True by (simp add: mset_update)
    ultimately show ?thesis by (simp add: pool)
  next
    case False
    with assms(2) have "j = length xs" by (simp add: pool)
    then show ?thesis by (simp add: pool)
  qed
qed

lemma mset_random_sample: "mset (random_sample g i pool) = mset pool"
proof (induction g i pool rule: random_sample.induct)
  case (1 g i pool)
  show ?case
  proof (cases "pool = []")
    case True
    then show ?thesis by (simp add: random_sample.simps)
  next
    case False
    let ?j = "g i mod length pool"
    have j: "?j < length pool" using False by simp
    have "mset (random_sample g i pool)
          = add_mset (pool ! ?j) (mset (random_sample g (Suc i) (butlast (pool[?j := last pool]))))"
      using False by (subst random_sample.simps) (simp add: Let_def)
    also have "\<dots> = add_mset (pool ! ?j) (mset (butlast (pool[?j := last pool])))"
      using "1.IH" [OF False refl] by simp
    also have "\<dots> = mset pool" by (rule mset_pool_step [OF False j])
    finally show ?thesis .
  qed
qed

lemma length_random_sample: "length (random_sample g i pool) = length pool"
  using mset_random_sample [of g i pool] by (metis size_mset)

section \<open>The sorted list is a permutation of the corpus\<close>

lemma py_sorted_Inr:
  assumes "py_sorted keyf reverse xs = Inr sd"
  shows "\<exists>ks. map keyf xs = map Inr ks \<and>
          sd = map snd (if reverse then rev (sort_key fst (rev (zip ks xs)))
                        else sort_key fst (zip ks xs))"
  using assms by (auto simp: py_sorted_def split: sum.splits dest: sequence_Inr)

lemma mset_py_sorted:
  assumes "py_sorted keyf reverse xs = Inr sd"
  shows "mset sd = mset xs"
proof -
  from py_sorted_Inr [OF assms] obtain ks where
    ks: "map keyf xs = map Inr ks" and
    sd: "sd = map snd (if reverse then rev (sort_key fst (rev (zip ks xs)))
                       else sort_key fst (zip ks xs))"
    by blast
  from ks have len: "length ks = length xs" by (metis length_map)
  have "mset sd = mset (map snd (zip ks xs))"
    by (simp add: sd)
  also have "\<dots> = mset xs" using len by simp
  finally show ?thesis .
qed

lemma mset_sort_data:
  assumes "sort_data data key sf pr = Inr sd"
  shows "mset sd = mset data"
  using assms
  by (auto simp: sort_data_def mset_random_sample mset_py_sorted split: if_splits)

lemma length_sort_data:
  assumes "sort_data data key sf pr = Inr sd"
  shows "length sd = length data"
  using mset_sort_data [OF assms] by (metis size_mset)

section \<open>The loop of make_batchset\<close>

lemma batch_loop_plan:
  assumes "batch_loop sd bs mli mlo key m sf start g acc = Some (Inr plan)"
  shows "\<exists>rest. plan = acc @ rest \<and> plan_from sd bs mli mlo key m sf start rest"
proof -
  have "batch_loop sd bs mli mlo key m sf start g acc = Some r \<Longrightarrow>
        (\<forall>plan. r = Inr plan \<longrightarrow>
            (\<exists>rest. plan = acc @ rest \<and> plan_from sd bs mli mlo key m sf start rest))" for r
  proof (induction rule: batch_loop.raw_induct [rotated 1, consumes 1])
    case (1 loop sd bs mli mlo key m sf start g acc r)
    show ?case
    proof (intro allI impI)
      fix plan assume r: "r = Inr plan"
      from "1.hyps" r obtain e where e: "window_end sd bs mli mlo key start = Inr e"
        by (auto split: sum.splits)
      from "1.hyps" r e obtain mb g' where mb: "make_minibatch sd start e m sf g = Inr (mb, g')"
        by (auto split: sum.splits)
      show "\<exists>rest. plan = acc @ rest \<and> plan_from sd bs mli mlo key m sf start rest"
      proof (cases "e = int (length sd)")
        case True
        with "1.hyps" r e mb have "plan = acc @ [mb]" by simp
        moreover have "plan_from sd bs mli mlo key m sf start [mb]"
          using e mb True by (rule plan_from.last_batch)
        ultimately show ?thesis by blast
      next
        case False
        with "1.hyps" r e mb have "loop sd bs mli mlo key m sf e g' (acc @ [mb]) = Some (Inr plan)"
          by simp
        from "1.IH" [OF this, rule_format, OF refl] obtain rest where
          rest: "plan = (acc @ [mb]) @ rest" "plan_from sd bs mli mlo key m sf e rest"
          by blast
        have "plan_from sd bs mli mlo key m sf start (mb # rest)"
          using e mb False rest(2) by (rule plan_from.next_batch)
        with rest(1) show ?thesis by auto
      qed
    qed
  qed
  with assms show ?thesis by blast
qed


lemma index_all_Inr:
  assumes "map (py_index sd) idx = map Inr add" and "\<forall>i\<in>set idx. 0 \<le> i"
  shows "add = map (\<lambda>i. sd ! nat i) idx \<and> (\<forall>i\<in>set idx. i < int (length sd))"
  using assms
proof (induction idx arbitrary: add)
  case Nil
  then show ?case by simp
next
  case (Cons i idx)
  then obtain x xs where add: "add = x # xs" by (cases add) auto
  with Cons.prems have "py_index sd i = Inr x" "map (py_index sd) idx = map Inr xs" "0 \<le> i"
    by auto
  with Cons.IH [of xs] Cons.prems(2) add show ?case
    by (auto simp: py_index_Inr)
qed

lemma make_minibatch_Inr:
  assumes mk: "make_minibatch sd start e m sf g = Inr (mb, g')"
  shows "m \<le> int (length mb) \<and>
    (\<exists>idx. mb = (if sf then rev (py_slice sd start e) else py_slice sd start e)
                  @ (if sf then rev (map (\<lambda>i. sd ! nat i) idx) else map (\<lambda>i. sd ! nat i) idx)
       \<and> (if int (length (py_slice sd start e)) < m
          then int (length idx) = m - int (length (py_slice sd start e)) mod m
               \<and> (\<forall>i\<in>set idx. 0 \<le> i \<and> i < start \<and> i < int (length sd))
          else idx = []))"
proof (cases "int (length (py_slice sd start e)) < m")
  case False
  with mk have "mb = (if sf then rev (py_slice sd start e) else py_slice sd start e)"
    by (auto simp: make_minibatch_def Let_def)
  with False show ?thesis by auto
next
  case True
  let ?w = "py_slice sd start e"
  let ?md = "m - int (length ?w) mod m"
  from True have md: "?md = m - int (length ?w)" by simp
  from mk True obtain idx add where
    ri: "randint 0 start ?md g = Inr (idx, g')" and
    sq: "sequence (map (py_index sd) idx) = Inr add" and
    mb: "mb = (if sf then rev ?w else ?w) @ (if sf then rev add else add)"
    by (auto simp: make_minibatch_def Let_def split: sum.splits if_splits)
  from randint_Inr [OF ri] have
    len: "length idx = nat ?md" and rng: "\<forall>i\<in>set idx. 0 \<le> i \<and> i < start"
    by auto
  from index_all_Inr [OF sequence_Inr [OF sq]] rng have
    add: "add = map (\<lambda>i. sd ! nat i) idx" and inr: "\<forall>i\<in>set idx. i < int (length sd)"
    by auto
  have "int (length mb) = m" using mb add len md True by auto
  moreover have "int (length idx) = ?md" using len md True by simp
  ultimately show ?thesis using True mb add rng inr by auto
qed

lemma make_batchset_Inr:
  assumes "make_batchset data bs mli mlo nb key m sf pr nr = Some (Inr plan)"
  shows "\<exists>sd rest. sort_data data key sf pr = Inr sd \<and> m \<le> int (length sd)
           \<and> plan_from sd bs mli mlo key m sf 0 rest
           \<and> plan = (if nb > 0 then take (nat nb) rest else rest)"
proof -
  from assms obtain sd where sd: "sort_data data key sf pr = Inr sd"
    by (auto simp: make_batchset_def split: sum.splits)
  with assms have n: "m \<le> int (length sd)"
    by (auto simp: make_batchset_def split: if_splits)
  with assms sd obtain p0 where
    p0: "batch_loop sd bs mli mlo key m sf 0 nr [] = Some (Inr p0)"
    and plan: "plan = (if nb > 0 then take (nat nb) p0 else p0)"
    by (auto simp: make_batchset_def split: option.splits sum.splits if_splits)
  from batch_loop_plan [OF p0] have "plan_from sd bs mli mlo key m sf 0 p0" by simp
  with sd n plan show ?thesis by blast
qed

lemma plan_from_offsets:
  assumes "plan_from sd bs mli mlo key m sf start rest"
  shows "\<exists>offs. length offs = length rest \<and> offs ! 0 = start \<and>
           (\<forall>k<length rest. \<exists>e g g'.
               window_end sd bs mli mlo key (offs ! k) = Inr e \<and>
               make_minibatch sd (offs ! k) e m sf g = Inr (rest ! k, g') \<and>
               (Suc k < length rest \<longrightarrow> offs ! Suc k = e))"
  using assms
proof (induction rule: plan_from.induct)
  case (last_batch start e g b g')
  then show ?case by (intro exI [of _ "[start]"]) auto
next
  case (next_batch start e g b g' rest)
  from next_batch.IH obtain offs where
    offs: "length offs = length rest" "offs ! 0 = e"
      "\<forall>k<length rest. \<exists>e g g'.
               window_end sd bs mli mlo key (offs ! k) = Inr e \<and>
               make_minibatch sd (offs ! k) e m sf g = Inr (rest ! k, g') \<and>
               (Suc k < length rest \<longrightarrow> offs ! Suc k = e)"
    by blast
  have "\<exists>e' g g'.
          window_end sd bs mli mlo key ((start # offs) ! k) = Inr e' \<and>
          make_minibatch sd ((start # offs) ! k) e' m sf g = Inr ((b # rest) ! k, g') \<and>
          (Suc k < length (b # rest) \<longrightarrow> (start # offs) ! Suc k = e')"
    if "k < length (b # rest)" for k
  proof (cases k)
    case 0
    with next_batch.hyps(1,2) offs(2) show ?thesis by auto
  next
    case (Suc j)
    with that have "j < length rest" by simp
    with offs(3) Suc show ?thesis by simp
  qed
  with offs(1) show ?case by (intro exI [of _ "start # offs"]) simp
qed

section \<open>A short window at offset 0\<close>

lemma make_minibatch_first_short:
  assumes "int (length (py_slice sd 0 e)) < m"
  shows "make_minibatch sd 0 e m sf g = Inl (ValueError ''low >= high'')"
  using assms by (simp add: make_minibatch_def Let_def randint_def)

lemma make_batchset_first_short:
  assumes sd: "sort_data data key sf pr = Inr sd"
    and n: "m \<le> int (length sd)"
    and we: "window_end sd bs mli mlo key 0 = Inr e"
    and short: "int (length (py_slice sd 0 e)) < m"
  shows "make_batchset data bs mli mlo nb key m sf pr nr = Some (Inl (ValueError ''low >= high''))"
proof -
  have "batch_loop sd bs mli mlo key m sf 0 nr [] = Some (Inl (ValueError ''low >= high''))"
    by (subst batch_loop.simps) (simp add: we make_minibatch_first_short [OF short])
  with sd n show ?thesis by (simp add: make_batchset_def)
qed

section \<open>The loop returns\<close>

lemma window_end_progress:
  assumes sane: "key = ''shuffle'' \<and> 1 \<le> bs \<or>
                 key \<noteq> ''shuffle'' \<and> 0 < mli \<and> 0 < mlo \<and> (\<forall>d\<in>set sd. well_formed d)"
    and st: "0 \<le> start" "start < int (length sd)"
  shows "\<exists>e. window_end sd bs mli mlo key start = Inr e \<and> start < e \<and> e \<le> int (length sd)"
proof (cases "key = ''shuffle''")
  case True
  with sane st show ?thesis by (auto simp: window_end_def)
next
  case False
  with sane have pos: "0 < mli" "0 < mlo" and wf: "\<forall>d\<in>set sd. well_formed d" by auto
  from st have "sd ! nat start \<in> set sd" by simp
  with wf obtain ilen olen where
    l: "first_len (utt_output (snd (sd ! nat start))) = Inr ilen" "0 \<le> ilen"
       "first_len (utt_input (snd (sd ! nat start))) = Inr olen" "0 \<le> olen"
    unfolding well_formed_def by blast
  from window_end_formula [OF False st l(1) l(3) l(2) l(4) pos, of bs] st
  show ?thesis by auto
qed

lemma make_minibatch_ok:
  assumes "0 < start \<and> start \<le> int (length sd) \<or> m \<le> int (length (py_slice sd start e))"
  shows "\<exists>mb g'. make_minibatch sd start e m sf g = Inr (mb, g')"
proof (cases "int (length (py_slice sd start e)) < m")
  case False
  then show ?thesis by (simp add: make_minibatch_def Let_def)
next
  case True
  let ?w = "py_slice sd start e"
  let ?md = "m - int (length ?w) mod m"
  from True assms have st: "0 < start" "start \<le> int (length sd)" by auto
  from True have md: "0 \<le> ?md" by simp
  from randint_ok [OF st(1) md] obtain idx g' where
    ri: "randint 0 start ?md g = Inr (idx, g')" by blast
  from randint_Inr [OF ri] st have "\<forall>i\<in>set idx. 0 \<le> i \<and> i < int (length sd)" by auto
  then have "map (py_index sd) idx = map Inr (map (\<lambda>i. sd ! nat i) idx)"
    by (simp add: py_index_in_range)
  then have "sequence (map (py_index sd) idx) = Inr (map (\<lambda>i. sd ! nat i) idx)"
    by (simp only: sequence_map_Inr)
  with True ri show ?thesis by (simp add: make_minibatch_def Let_def)
qed

lemma batch_loop_returns:
  assumes sane: "key = ''shuffle'' \<and> 1 \<le> bs \<or>
                 key \<noteq> ''shuffle'' \<and> 0 < mli \<and> 0 < mlo \<and> (\<forall>d\<in>set sd. well_formed d)"
    and st: "0 \<le> start" "start < int (length sd)"
    and first: "0 < start \<or>
       (\<forall>e. window_end sd bs mli mlo key 0 = Inr e \<longrightarrow> m \<le> int (length (py_slice sd 0 e)))"
  shows "\<exists>plan. batch_loop sd bs mli mlo key m sf start g acc = Some (Inr plan)"
  using st first
proof (induction "nat (int (length sd) - start)" arbitrary: start g acc rule: less_induct)
  case less
  from window_end_progress [OF sane less.prems(1,2)] obtain e where
    e: "window_end sd bs mli mlo key start = Inr e" "start < e" "e \<le> int (length sd)"
    by blast
  have "0 < start \<and> start \<le> int (length sd) \<or> m \<le> int (length (py_slice sd start e))"
    using less.prems e(1) by (cases "start = 0") auto
  from make_minibatch_ok [OF this] obtain mb g' where
    mb: "make_minibatch sd start e m sf g = Inr (mb, g')" by blast
  have step: "batch_loop sd bs mli mlo key m sf start g acc =
      (if e = int (length sd) then Some (Inr (acc @ [mb]))
       else batch_loop sd bs mli mlo key m sf e g' (acc @ [mb]))"
    by (subst batch_loop.simps) (simp add: e(1) mb)
  show ?case
  proof (cases "e = int (length sd)")
    case True
    then show ?thesis by (simp add: step)
  next
    case False
    have "\<exists>plan. batch_loop sd bs mli mlo key m sf e g' (acc @ [mb]) = Some (Inr plan)"
    proof (rule less.hyps)
      show "nat (int (length sd) - e) < nat (int (length sd) - start)"
        using e less.prems by simp
      show "0 \<le> e" using e less.prems by simp
      show "e < int (length sd)" using e False by simp
      show "0 < e \<or>
        (\<forall>e. window_end sd bs mli mlo key 0 = Inr e \<longrightarrow> m \<le> int (length (py_slice sd 0 e)))"
        using e less.prems by simp
    qed
    with False show ?thesis by (simp add: step)
  qed
qed

section \<open>First items of the minibatches of a sorted plan\<close>

lemma zip_keys:
  assumes "map keyf xs = map Inr ks" and "p \<in> set (zip ks xs)"
  shows "keyf (snd p) = Inr (fst p)"
proof -
  from assms(2) obtain i where i: "i < length ks" "i < length xs" "p = (ks ! i, xs ! i)"
    by (auto simp: in_set_zip)
  have "keyf (xs ! i) = map keyf xs ! i" using i by simp
  also have "\<dots> = Inr (ks ! i)" using i by (simp add: assms(1))
  finally show ?thesis using i by simp
qed

lemma py_sorted_descending:
  assumes "py_sorted keyf True xs = Inr sd"
  shows "\<exists>ks. length ks = length sd \<and> (\<forall>i<length sd. keyf (sd ! i) = Inr (ks ! i))
              \<and> (\<forall>i j. i \<le> j \<and> j < length sd \<longrightarrow> ks ! j \<le> ks ! i)"
proof -
  from py_sorted_Inr [OF assms] obtain ks0 where
    ks0: "map keyf xs = map Inr ks0" and
    sd: "sd = map snd (rev (sort_key fst (rev (zip ks0 xs))))"
    by auto
  let ?z = "rev (sort_key fst (rev (zip ks0 xs)))"
  let ?ks = "map fst ?z"
  have len: "length ?ks = length sd" by (simp add: sd)
  have keys: "keyf (sd ! i) = Inr (?ks ! i)" if "i < length sd" for i
  proof -
    from that have i: "i < length ?z" by (simp add: sd)
    then have "?z ! i \<in> set ?z" by (rule nth_mem)
    then have "?z ! i \<in> set (zip ks0 xs)" by simp
    from zip_keys [OF ks0 this] i show ?thesis by (simp add: sd)
  qed
  have "rev ?ks = map fst (sort_key fst (rev (zip ks0 xs)))"
    by (simp add: rev_map)
  then have srt: "sorted (rev ?ks)"
    by (simp only: sorted_sort_key)
  have desc: "?ks ! j \<le> ?ks ! i" if "i \<le> j" "j < length sd" for i j
  proof -
    from that(2) have "j < length ?ks" by (simp only: len)
    from sorted_rev_nth_mono [OF srt that(1) this] show ?thesis .
  qed
  from len keys desc show ?thesis by blast
qed

lemma window_end_sorted:
  assumes "key \<noteq> ''shuffle''" and "0 \<le> start"
    and "window_end sd bs mli mlo key start = Inr e"
  shows "start < int (length sd) \<and> start < e \<and> e \<le> int (length sd)"
proof -
  from assms obtain d q where d: "py_index sd start = Inr d"
    and e: "e = min (int (length sd)) (start + max 1 q)"
    by (auto simp: window_end_def Let_def split: sum.splits)
  from d assms(2) have "start < int (length sd)" by (simp add: py_index_Inr)
  with e show ?thesis by auto
qed

lemma make_minibatch_head:
  assumes "make_minibatch sd start e m False g = Inr (b, g')"
    and "0 \<le> start" "start < e" "e \<le> int (length sd)"
  shows "b \<noteq> [] \<and> hd b = sd ! nat start"
proof -
  from make_minibatch_Inr [OF assms(1)] obtain pad where "b = py_slice sd start e @ pad"
    by auto
  with hd_py_slice_window [OF assms(2-4)] show ?thesis by simp
qed

lemma plan_from_heads:
  assumes "plan_from sd bs mli mlo key m False start rest"
    and "key \<noteq> ''shuffle''" and "0 \<le> start"
  shows "rest \<noteq> [] \<and> start < int (length sd) \<and> (\<forall>b\<in>set rest. b \<noteq> [])
         \<and> hd (hd rest) = sd ! nat start
         \<and> (\<forall>i. Suc i < length rest \<longrightarrow>
               (\<exists>a b. a \<le> b \<and> b < length sd \<and> hd (rest ! i) = sd ! a
                      \<and> hd (rest ! Suc i) = sd ! b))"
  using assms
proof (induction rule: plan_from.induct)
  case (last_batch start e g b g')
  from window_end_sorted [OF last_batch.prems(1,2) last_batch.hyps(1)]
  have w: "start < int (length sd)" "start < e" "e \<le> int (length sd)" by auto
  from make_minibatch_head [OF last_batch.hyps(2) last_batch.prems(2) w(2,3)] w
  show ?case by simp
next
  case (next_batch start e g b g' rest)
  from window_end_sorted [OF next_batch.prems(1,2) next_batch.hyps(1)]
  have w: "start < int (length sd)" "start < e" "e \<le> int (length sd)" by auto
  from make_minibatch_head [OF next_batch.hyps(2) next_batch.prems(2) w(2,3)]
  have b: "b \<noteq> []" "hd b = sd ! nat start" by auto
  from w next_batch.prems have e0: "0 \<le> e" by simp
  from next_batch.IH [OF next_batch.prems(1) e0] have
    ih: "rest \<noteq> []" "e < int (length sd)" "\<forall>b\<in>set rest. b \<noteq> []"
        "hd (hd rest) = sd ! nat e"
        "\<forall>i. Suc i < length rest \<longrightarrow>
               (\<exists>a b. a \<le> b \<and> b < length sd \<and> hd (rest ! i) = sd ! a
                      \<and> hd (rest ! Suc i) = sd ! b)"
    by auto
  have "\<exists>a c. a \<le> c \<and> c < length sd \<and> hd ((b # rest) ! i) = sd ! a
                      \<and> hd ((b # rest) ! Suc i) = sd ! c"
    if "Suc i < length (b # rest)" for i
  proof (cases i)
    case 0
    have "hd (rest ! 0) = sd ! nat e" using ih(1,4) by (simp add: hd_conv_nth)
    moreover have "nat start \<le> nat e" "nat e < length sd"
      using w ih(2) next_batch.prems(2) by simp_all
    ultimately show ?thesis using 0 b(2) by auto
  next
    case (Suc j)
    with that have "Suc j < length rest" by simp
    with ih(5) Suc show ?thesis by simp
  qed
  with b ih w show ?case by simp
qed

section \<open>Shuffled plans without padding\<close>

lemma shuffle_window:
  fixes start n bs m :: int
  assumes st: "0 \<le> start" "start < n" and dv: "bs dvd start" and bs: "1 \<le> bs" "m \<le> bs"
    and tail: "n mod bs = 0 \<or> m \<le> n mod bs"
  shows "m \<le> min n (start + bs) - start"
proof (cases "start + bs \<le> n")
  case True
  with bs show ?thesis by simp
next
  case False
  from dv obtain k where k: "start = bs * k" by (auto simp: dvd_def)
  let ?r = "n - start"
  have r: "0 < ?r" "?r < bs" using st False by simp_all
  have "n = bs * k + ?r" using k by simp
  then have "n mod bs = (bs * k + ?r) mod bs" by simp
  also have "\<dots> = ?r mod bs" by (simp only: mod_mult_self4)
  also have "\<dots> = ?r" using r by simp
  finally have "n mod bs = ?r" .
  with tail r have "m \<le> ?r" by simp
  with False show ?thesis by simp
qed

lemma shuffle_plan_partition:
  assumes "plan_from sd bs mli mlo ''shuffle'' m sf start rest"
    and "0 \<le> start" "start < int (length sd)" "bs dvd start" "1 \<le> bs" "m \<le> bs"
    and "int (length sd) mod bs = 0 \<or> m \<le> int (length sd) mod bs"
  shows "mset (concat rest) = mset (drop (nat start) sd)"
  using assms
proof (induction rule: plan_from.induct)
  case (last_batch start e g b g')
  from last_batch.hyps(1) have e: "e = min (int (length sd)) (start + bs)"
    by (simp add: window_end_def)
  with last_batch.prems have se: "0 \<le> start" "start \<le> e" "e \<le> int (length sd)" by simp_all
  from shuffle_window [OF last_batch.prems(1-5) last_batch.prems(6)]
  have "m \<le> e - start" by (simp add: e)
  then have "\<not> int (length (py_slice sd start e)) < m"
    using length_py_slice_window [OF se] by simp
  with make_minibatch_Inr [OF last_batch.hyps(2)] have
    "b = (if sf then rev (py_slice sd start e) else py_slice sd start e)" by auto
  then have "mset b = mset (py_slice sd start e)" by simp
  moreover have "drop (nat start) sd = py_slice sd start e @ drop (nat e) sd"
    by (rule drop_py_slice [OF se])
  moreover have "drop (nat e) sd = []" using last_batch.hyps(3) by simp
  ultimately show ?case by simp
next
  case (next_batch start e g b g' rest)
  from next_batch.hyps(1) have e: "e = min (int (length sd)) (start + bs)"
    by (simp add: window_end_def)
  with next_batch.prems have se: "0 \<le> start" "start \<le> e" "e \<le> int (length sd)" by simp_all
  from e next_batch.hyps(3) have e': "e = start + bs" "e < int (length sd)" by auto
  from shuffle_window [OF next_batch.prems(1-5) next_batch.prems(6)]
  have "m \<le> e - start" by (simp add: e)
  then have "\<not> int (length (py_slice sd start e)) < m"
    using length_py_slice_window [OF se] by simp
  with make_minibatch_Inr [OF next_batch.hyps(2)] have
    "b = (if sf then rev (py_slice sd start e) else py_slice sd start e)" by auto
  then have b: "mset b = mset (py_slice sd start e)" by simp
  have d: "drop (nat start) sd = py_slice sd start e @ drop (nat e) sd"
    by (rule drop_py_slice [OF se])
  have "mset (concat rest) = mset (drop (nat e) sd)"
  proof (rule next_batch.IH)
    show "0 \<le> e" using se by simp
    show "e < int (length sd)" by (rule e'(2))
    show "bs dvd e" using e'(1) next_batch.prems(3) by simp
    show "1 \<le> bs" "m \<le> bs" by (rule next_batch.prems)+
    show "int (length sd) mod bs = 0 \<or> m \<le> int (length sd) mod bs" by (rule next_batch.prems)
  qed
  with b d show ?case by simp
qed

lemma shuffle_plan_exact:
  assumes nonempty: "data \<noteq> []" and bs: "1 \<le> bs" "m \<le> bs" and n: "m \<le> int (length data)"
    and tail: "int (length data) mod bs = 0 \<or> m \<le> int (length data) mod bs"
    and nb: "nb \<le> 0"
  shows "\<exists>plan. make_batchset data bs mli mlo nb ''shuffle'' m sf pr nr = Some (Inr plan)
               \<and> mset (concat plan) = mset data"
proof -
  let ?sd = "random_sample pr 0 data"
  have sd: "sort_data data ''shuffle'' sf pr = Inr ?sd" by (simp add: sort_data_def)
  have len: "length ?sd = length data" by (rule length_random_sample)
  have pos: "(0::int) \<le> 0" "0 < int (length ?sd)" using nonempty by (simp_all add: len)
  have sane: "''shuffle'' = ''shuffle'' \<and> 1 \<le> bs \<or>
     ''shuffle'' \<noteq> ''shuffle'' \<and> 0 < mli \<and> 0 < mlo \<and> (\<forall>d\<in>set ?sd. well_formed d)"
    using bs by simp
  have first: "0 < (0::int) \<or> (\<forall>e. window_end ?sd bs mli mlo ''shuffle'' 0 = Inr e \<longrightarrow>
                  m \<le> int (length (py_slice ?sd 0 e)))"
  proof (intro disjI2 allI impI)
    fix e assume "window_end ?sd bs mli mlo ''shuffle'' 0 = Inr e"
    then have e: "e = min (int (length data)) bs" by (simp add: window_end_def len)
    then have "int (length (py_slice ?sd 0 e)) = e"
      using bs by (subst length_py_slice_window) (simp_all add: len)
    with e bs n show "m \<le> int (length (py_slice ?sd 0 e))" by simp
  qed
  from batch_loop_returns [OF sane pos first, of sf nr "[]"] obtain p0 where
    p0: "batch_loop ?sd bs mli mlo ''shuffle'' m sf 0 nr [] = Some (Inr p0)" by blast
  from batch_loop_plan [OF p0] have pf: "plan_from ?sd bs mli mlo ''shuffle'' m sf 0 p0"
    by simp
  have "mset (concat p0) = mset (drop (nat 0) ?sd)"
    by (rule shuffle_plan_partition [OF pf]) (use pos bs tail in \<open>simp_all add: len\<close>)
  then have "mset (concat p0) = mset data" by (simp add: mset_random_sample)
  moreover have "make_batchset data bs mli mlo nb ''shuffle'' m sf pr nr = Some (Inr p0)"
    using sd p0 n nb by (simp add: make_batchset_def len)
  ultimately show ?thesis by blast
qed

section \<open>Adaptive batch size\<close>






section \<open>Padding of short minibatches\<close>

text \<open>
  Claim C2. Every minibatch that \<open>make_batchset\<close> returns holds at least
  \<open>min_batch_size\<close> items. The minibatches have start offsets \<open>offs\<close>, the first being 0
  and each next one the end of the window before; minibatch \<open>k\<close> is the window
  \<open>sorted_data[start:end]\<close> at its offset (reversed for \<open>shortest_first\<close>) followed by
  the padding. A window shorter than \<open>min_batch_size\<close> is padded with
  \<open>min_batch_size - len % min_batch_size\<close> items (the list reversed for
  \<open>shortest_first\<close>), each read at an index in \<open>[0, start)\<close>, so strictly before the
  start offset of the batch; any other window gets no padding.
\<close>

theorem minibatches_padded:
  assumes "make_batchset data bs mli mlo nb key m sf pr nr = Some (Inr plan)"
  shows "\<exists>sd offs. sort_data data key sf pr = Inr sd \<and> plan \<noteq> [] \<and>
     length offs = length plan \<and> offs ! 0 = 0 \<and>
     (\<forall>k<length plan. m \<le> int (length (plan ! k)) \<and>
        (\<exists>e idx.
           window_end sd bs mli mlo key (offs ! k) = Inr e
           \<and> (Suc k < length plan \<longrightarrow> offs ! Suc k = e)
           \<and> plan ! k =
               (if sf then rev (py_slice sd (offs ! k) e) else py_slice sd (offs ! k) e)
               @ (if sf then rev (map (\<lambda>i. sd ! nat i) idx) else map (\<lambda>i. sd ! nat i) idx)
           \<and> (if int (length (py_slice sd (offs ! k) e)) < m
              then int (length idx) = m - int (length (py_slice sd (offs ! k) e)) mod m
                   \<and> (\<forall>i\<in>set idx. 0 \<le> i \<and> i < offs ! k \<and> i < int (length sd))
              else idx = [])))"
proof -
  from make_batchset_Inr [OF assms] obtain sd rest where
    sd: "sort_data data key sf pr = Inr sd" and
    pf: "plan_from sd bs mli mlo key m sf 0 rest" and
    plan: "plan = (if nb > 0 then take (nat nb) rest else rest)"
    by blast
  from plan_from_offsets [OF pf] obtain offs0 where
    o: "length offs0 = length rest" "offs0 ! 0 = 0" and
    st: "\<forall>k<length rest. \<exists>e g g'.
               window_end sd bs mli mlo key (offs0 ! k) = Inr e \<and>
               make_minibatch sd (offs0 ! k) e m sf g = Inr (rest ! k, g') \<and>
               (Suc k < length rest \<longrightarrow> offs0 ! Suc k = e)"
    by blast
  have rest: "rest \<noteq> []" using pf by (cases rule: plan_from.cases) auto
  let ?offs = "take (length plan) offs0"
  have len: "length plan \<le> length rest" using plan by (simp split: if_splits)
  have ne: "plan \<noteq> []" using plan rest by (auto split: if_splits)
  have nth: "plan ! k = rest ! k" "?offs ! k = offs0 ! k" if "k < length plan" for k
    using that plan by (auto split: if_splits)
  have "m \<le> int (length (plan ! k)) \<and>
        (\<exists>e idx.
           window_end sd bs mli mlo key (?offs ! k) = Inr e
           \<and> (Suc k < length plan \<longrightarrow> ?offs ! Suc k = e)
           \<and> plan ! k =
               (if sf then rev (py_slice sd (?offs ! k) e) else py_slice sd (?offs ! k) e)
               @ (if sf then rev (map (\<lambda>i. sd ! nat i) idx) else map (\<lambda>i. sd ! nat i) idx)
           \<and> (if int (length (py_slice sd (?offs ! k) e)) < m
              then int (length idx) = m - int (length (py_slice sd (?offs ! k) e)) mod m
                   \<and> (\<forall>i\<in>set idx. 0 \<le> i \<and> i < ?offs ! k \<and> i < int (length sd))
              else idx = []))"
    if k: "k < length plan" for k
  proof -
    from k len have kr: "k < length rest" by simp
    with st obtain e g g' where
      e: "window_end sd bs mli mlo key (offs0 ! k) = Inr e"
         "make_minibatch sd (offs0 ! k) e m sf g = Inr (rest ! k, g')"
         "Suc k < length rest \<longrightarrow> offs0 ! Suc k = e"
      by blast
    have nx: "Suc k < length plan \<longrightarrow> ?offs ! Suc k = e"
      using e(3) len by (auto simp: nth(2))
    from make_minibatch_Inr [OF e(2)] e(1) nx show ?thesis
      by (simp only: nth [OF k]) blast
  qed
  moreover have "length ?offs = length plan" using len o(1) by simp
  moreover have "?offs ! 0 = 0" using ne o(2) by simp
  ultimately show ?thesis using sd ne by blast
qed

theorem minibatches_padded_witness:
  "make_batchset corpus4 3 1000 1000 0 ''input'' 2 False (const_rng 0) (const_rng 1)
     = Some (Inr [[(''b'', mk_utt 9 4), (''d'', mk_utt 8 6), (''a'', mk_utt 7 3)],
                  [(''c'', mk_utt 5 2), (''d'', mk_utt 8 6)]]) \<and>
   (\<exists>sd offs. sort_data corpus4 ''input'' False (const_rng 0) = Inr sd \<and> [[(''b'', mk_utt 9 4), (''d'', mk_utt 8 6), (''a'', mk_utt 7 3)],
                  [(''c'', mk_utt 5 2), (''d'', mk_utt 8 6)]] \<noteq> [] \<and>
     length offs = length [[(''b'', mk_utt 9 4), (''d'', mk_utt 8 6), (''a'', mk_utt 7 3)],
                  [(''c'', mk_utt 5 2), (''d'', mk_utt 8 6)]] \<and> offs ! 0 = 0 \<and>
     (\<forall>k<length [[(''b'', mk_utt 9 4), (''d'', mk_utt 8 6), (''a'', mk_utt 7 3)],
                  [(''c'', mk_utt 5 2), (''d'', mk_utt 8 6)]]. 2 \<le> int (length ([[(''b'', mk_utt 9 4), (''d'', mk_utt 8 6), (''a'', mk_utt 7 3)],
                  [(''c'', mk_utt 5 2), (''d'', mk_utt 8 6)]] ! k)) \<and>
        (\<exists>e idx.
           window_end sd 3 1000 1000 ''input'' (offs ! k) = Inr e
           \<and> (Suc k < length [[(''b'', mk_utt 9 4), (''d'', mk_utt 8 6), (''a'', mk_utt 7 3)],
                  [(''c'', mk_utt 5 2), (''d'', mk_utt 8 6)]] \<longrightarrow> offs ! Suc k = e)
           \<and> [[(''b'', mk_utt 9 4), (''d'', mk_utt 8 6), (''a'', mk_utt 7 3)],
                  [(''c'', mk_utt 5 2), (''d'', mk_utt 8 6)]] ! k =
               (if False then rev (py_slice sd (offs ! k) e) else py_slice sd (offs ! k) e)
               @ (if False then rev (map (\<lambda>i. sd ! nat i) idx) else map (\<lambda>i. sd ! nat i) idx)
           \<and> (if int (length (py_slice sd (offs ! k) e)) < 2
              then int (length idx) = 2 - int (length (py_slice sd (offs ! k) e)) mod 2
                   \<and> (\<forall>i\<in>set idx. 0 \<le> i \<and> i < offs ! k \<and> i < int (length sd))
              else idx = []))))"
proof -
  have run: "make_batchset corpus4 3 1000 1000 0 ''input'' 2 False (const_rng 0) (const_rng 1)
     = Some (Inr [[(''b'', mk_utt 9 4), (''d'', mk_utt 8 6), (''a'', mk_utt 7 3)],
                  [(''c'', mk_utt 5 2), (''d'', mk_utt 8 6)]])"
    by (simp add: eval_defs corpus4_def)
  show ?thesis by (rule conjI [OF run minibatches_padded [OF run]])
qed

text \<open>
  Claim C4, as amended. For the sort key \<open>shuffle\<close>, a non-empty corpus, no truncation
  (\<open>num_batches \<le> 0\<close>) and \<open>min_batch_size \<ge> 1\<close>: when both the number of utterances
  and \<open>batch_size\<close> are multiples of \<open>min_batch_size\<close>, \<open>make_batchset\<close> returns a plan
  whose minibatches together hold every utterance id of the corpus exactly once. The
  number of utterances being a multiple of \<open>min_batch_size\<close> is not enough: a last
  window shorter than \<open>min_batch_size\<close> is padded with utterances already used.
\<close>

theorem shuffle_plan_covers_corpus:
  "data \<noteq> [] \<and> 1 \<le> m \<and> 1 \<le> bs \<and> m dvd bs \<and> m dvd int (length data) \<and> nb \<le> 0 \<longrightarrow>
     (\<exists>plan. make_batchset data bs mli mlo nb ''shuffle'' m sf pr nr = Some (Inr plan) \<and>
             mset (map fst (concat plan)) = mset (map fst data) \<and>
             (distinct (map fst data) \<longrightarrow> distinct (map fst (concat plan))))"
proof
  assume h: "data \<noteq> [] \<and> 1 \<le> m \<and> 1 \<le> bs \<and> m dvd bs \<and> m dvd int (length data) \<and> nb \<le> 0"
  then have mb: "m \<le> bs" by (simp add: zdvd_imp_le)
  from h have n: "m \<le> int (length data)" by (simp add: zdvd_imp_le)
  have "m dvd int (length data) mod bs" using h by (simp add: dvd_mod)
  moreover have "0 \<le> int (length data) mod bs" using h by simp
  ultimately have tail: "int (length data) mod bs = 0 \<or> m \<le> int (length data) mod bs"
    by (cases "int (length data) mod bs = 0") (simp_all add: zdvd_imp_le)
  from shuffle_plan_exact [of data bs m nb mli mlo sf pr nr] h mb n tail obtain plan where
    plan: "make_batchset data bs mli mlo nb ''shuffle'' m sf pr nr = Some (Inr plan)"
      "mset (concat plan) = mset data" by blast
  from plan(2) have ids: "mset (map fst (concat plan)) = mset (map fst data)"
    by (metis mset_map)
  then have "distinct (map fst data) \<longrightarrow> distinct (map fst (concat plan))"
    by (metis mset_eq_imp_distinct_iff)
  with plan(1) ids
  show "\<exists>plan. make_batchset data bs mli mlo nb ''shuffle'' m sf pr nr = Some (Inr plan) \<and>
             mset (map fst (concat plan)) = mset (map fst data) \<and>
             (distinct (map fst data) \<longrightarrow> distinct (map fst (concat plan)))"
    by blast
qed

theorem shuffle_plan_covers_corpus_counterexample:
  "int (length corpus4) mod 2 = 0 \<and>
   make_batchset corpus4 3 1 1 0 ''shuffle'' 2 False (const_rng 0) (const_rng 0)
     = Some (Inr [[(''a'', mk_utt 7 3), (''d'', mk_utt 8 6), (''c'', mk_utt 5 2)],
                  [(''b'', mk_utt 9 4), (''a'', mk_utt 7 3)]]) \<and>
   mset (map fst (concat [[(''a'', mk_utt 7 3), (''d'', mk_utt 8 6), (''c'', mk_utt 5 2)],
                          [(''b'', mk_utt 9 4), (''a'', mk_utt 7 3)]]))
     \<noteq> mset (map fst corpus4)"
proof -
  have run: "make_batchset corpus4 3 1 1 0 ''shuffle'' 2 False (const_rng 0) (const_rng 0)
     = Some (Inr [[(''a'', mk_utt 7 3), (''d'', mk_utt 8 6), (''c'', mk_utt 5 2)],
                  [(''b'', mk_utt 9 4), (''a'', mk_utt 7 3)]])"
    by (simp add: eval_defs corpus4_def)
  have "size (mset (map fst (concat [[(''a'', mk_utt 7 3), (''d'', mk_utt 8 6), (''c'', mk_utt 5 2)],
                          [(''b'', mk_utt 9 4), (''a'', mk_utt 7 3)]]))) = 5" by simp
  moreover have "size (mset (map fst corpus4)) = 4" by (simp add: corpus4_def)
  ultimately have "mset (map fst (concat [[(''a'', mk_utt 7 3), (''d'', mk_utt 8 6), (''c'', mk_utt 5 2)],
                          [(''b'', mk_utt 9 4), (''a'', mk_utt 7 3)]]))
     \<noteq> mset (map fst corpus4)" by (metis numeral_eq_iff semiring_norm(89) num.distinct)
  with run show ?thesis by (simp add: corpus4_def)
qed

theorem shuffle_plan_covers_corpus_witness:
  "make_batchset corpus4 2 1 1 0 ''shuffle'' 2 True (const_rng 0) (const_rng 0)
     = Some (Inr [[(''d'', mk_utt 8 6), (''a'', mk_utt 7 3)],
                  [(''b'', mk_utt 9 4), (''c'', mk_utt 5 2)]]) \<and>
   (\<exists>plan. make_batchset corpus4 2 1 1 0 ''shuffle'' 2 True (const_rng 0) (const_rng 0)
             = Some (Inr plan) \<and>
           mset (map fst (concat plan)) = mset (map fst corpus4) \<and>
           distinct (map fst (concat plan)))"
proof -
  have run: "make_batchset corpus4 2 1 1 0 ''shuffle'' 2 True (const_rng 0) (const_rng 0)
     = Some (Inr [[(''d'', mk_utt 8 6), (''a'', mk_utt 7 3)],
                  [(''b'', mk_utt 9 4), (''c'', mk_utt 5 2)]])"
    by (simp add: eval_defs corpus4_def)
  have d: "distinct (map fst corpus4)" by (simp add: corpus4_def)
  have "corpus4 \<noteq> [] \<and> (1::int) \<le> 2 \<and> (1::int) \<le> 2 \<and> (2::int) dvd 2
        \<and> 2 dvd int (length corpus4) \<and> (0::int) \<le> 0"
    by (simp add: corpus4_def)
  with shuffle_plan_covers_corpus [of corpus4 2 2 0 1 1 True "const_rng 0" "const_rng 0"] d run
  show ?thesis by blast
qed

text \<open>
  Claim C5. For the sort key \<open>input\<close> and \<open>shortest_first = False\<close>, every minibatch of
  a returned plan is non-empty and the first utterance of minibatch \<open>i\<close> is at least as
  long as the first utterance of minibatch \<open>i + 1\<close>, the length being the one the sort
  used: for the key \<open>input\<close> it is read from the \<open>output\<close> field of the record, and for
  the key \<open>output\<close> (for which the same holds) from the \<open>input\<close> field.
\<close>

theorem batch_heads_descending:
  "(key = ''input'' \<and> field = utt_output \<or> key = ''output'' \<and> field = utt_input) \<and>
   make_batchset data bs mli mlo nb key m False pr nr = Some (Inr plan) \<and>
   Suc i < length plan \<longrightarrow>
     plan ! i \<noteq> [] \<and> plan ! Suc i \<noteq> [] \<and>
     (\<exists>k k'. first_len (field (snd (hd (plan ! i)))) = Inr k \<and>
             first_len (field (snd (hd (plan ! Suc i)))) = Inr k' \<and> k' \<le> k)"
proof
  assume h: "(key = ''input'' \<and> field = utt_output \<or> key = ''output'' \<and> field = utt_input) \<and>
   make_batchset data bs mli mlo nb key m False pr nr = Some (Inr plan) \<and>
   Suc i < length plan"
  then have run: "make_batchset data bs mli mlo nb key m False pr nr = Some (Inr plan)"
    and i: "Suc i < length plan" and key: "key \<noteq> ''shuffle''" by auto
  from make_batchset_Inr [OF run] obtain sd rest where
    sd: "sort_data data key False pr = Inr sd" and
    pf: "plan_from sd bs mli mlo key m False 0 rest" and
    plan: "plan = (if nb > 0 then take (nat nb) rest else rest)"
    by blast
  from sd h have srt: "py_sorted (\<lambda>d. first_len (field (snd d))) True data = Inr sd"
    by (auto simp: sort_data_def)
  from py_sorted_descending [OF srt] obtain ks where
    ks: "\<forall>i<length sd. first_len (field (snd (sd ! i))) = Inr (ks ! i)"
        "\<forall>i j. i \<le> j \<and> j < length sd \<longrightarrow> ks ! j \<le> ks ! i"
    by blast
  from plan i have ir: "Suc i < length rest" and
    pi: "plan ! i = rest ! i" "plan ! Suc i = rest ! Suc i"
    by (auto split: if_splits)
  from plan_from_heads [OF pf key] have
    ne: "\<forall>b\<in>set rest. b \<noteq> []" and
    hds: "\<forall>i. Suc i < length rest \<longrightarrow>
               (\<exists>a b. a \<le> b \<and> b < length sd \<and> hd (rest ! i) = sd ! a
                      \<and> hd (rest ! Suc i) = sd ! b)"
    by auto
  from hds ir obtain a b where
    ab: "a \<le> b" "b < length sd" "hd (rest ! i) = sd ! a" "hd (rest ! Suc i) = sd ! b"
    by blast
  from ne ir have "rest ! i \<noteq> []" "rest ! Suc i \<noteq> []" by simp_all
  moreover have "first_len (field (snd (hd (rest ! i)))) = Inr (ks ! a)"
    using ks(1) ab by simp
  moreover have "first_len (field (snd (hd (rest ! Suc i)))) = Inr (ks ! b)"
    using ks(1) ab by simp
  moreover have "ks ! b \<le> ks ! a" using ks(2) ab by simp
  ultimately show "plan ! i \<noteq> [] \<and> plan ! Suc i \<noteq> [] \<and>
     (\<exists>k k'. first_len (field (snd (hd (plan ! i)))) = Inr k \<and>
             first_len (field (snd (hd (plan ! Suc i)))) = Inr k' \<and> k' \<le> k)"
    by (simp add: pi)
qed

theorem batch_heads_descending_witness:
  "make_batchset corpus4 2 8 1000 0 ''input'' 1 False (const_rng 0) (const_rng 1)
     = Some (Inr [[(''b'', mk_utt 9 4)], [(''d'', mk_utt 8 6)],
                  [(''a'', mk_utt 7 3), (''c'', mk_utt 5 2)]]) \<and>
   first_len (utt_output (snd (hd [(''d'', mk_utt 8 6)]))) = Inr 8 \<and>
   (\<exists>k k'. first_len (utt_output (snd (hd [(''d'', mk_utt 8 6)]))) = Inr k \<and>
           first_len (utt_output (snd (hd [(''a'', mk_utt 7 3), (''c'', mk_utt 5 2)]))) = Inr k' \<and>
           k' \<le> k)"
proof -
  have run: "make_batchset corpus4 2 8 1000 0 ''input'' 1 False (const_rng 0) (const_rng 1)
     = Some (Inr [[(''b'', mk_utt 9 4)], [(''d'', mk_utt 8 6)],
                  [(''a'', mk_utt 7 3), (''c'', mk_utt 5 2)]])"
    by (simp add: eval_defs corpus4_def)
  have "first_len (utt_output (snd (hd [(''d'', mk_utt 8 6)]))) = Inr 8"
    by (simp add: first_len_def mk_utt_def)
  with run batch_heads_descending [where key = "''input''" and field = utt_output
      and data = corpus4 and bs = 2 and mli = 8 and mlo = 1000 and nb = 0 and m = 1
      and pr = "const_rng 0" and nr = "const_rng 1" and i = 1
      and plan = "[[(''b'', mk_utt 9 4)], [(''d'', mk_utt 8 6)],
                  [(''a'', mk_utt 7 3), (''c'', mk_utt 5 2)]]"]
  show ?thesis by simp
qed

section \<open>Errors of make_batchset\<close>

text \<open>
  Claim C6, as amended. A sort key outside \<open>shuffle\<close>, \<open>input\<close>, \<open>output\<close> raises the
  sort-key \<open>ValueError\<close>, whatever the size of the corpus (so it comes first when the
  corpus is too small as well). With a key whose sort succeeds, a corpus of fewer than
  \<open>min_batch_size\<close> utterances raises the corpus \<open>ValueError\<close>. With a non-empty corpus of
  at least \<open>min_batch_size\<close> utterances, a positive batch size for \<open>shuffle\<close>, positive
  maximum lengths and well-formed records for the other keys, and a first window of at
  least \<open>min_batch_size\<close> items, \<open>make_batchset\<close> returns a plan. The claim as stated (no
  error whenever the key is valid and the corpus large enough) fails: a maximum length of
  zero raises \<open>ZeroDivisionError\<close>.
\<close>

theorem make_batchset_errors:
  "(key \<noteq> ''shuffle'' \<and> key \<noteq> ''input'' \<and> key \<noteq> ''output'' \<longrightarrow>
      make_batchset data bs mli mlo nb key m sf pr nr =
        Some (Inl (ValueError ''batch_sort_key should be selected from None, input, and output.'')))
   \<and> (sort_data data key sf pr = Inr sd \<and> int (length data) < m \<longrightarrow>
      make_batchset data bs mli mlo nb key m sf pr nr =
        Some (Inl (ValueError ''#utts is less than min_batch_size.'')))
   \<and> (sort_data data key sf pr = Inr sd \<and> m \<le> int (length data) \<and> data \<noteq> [] \<and>
      (key = ''shuffle'' \<and> 1 \<le> bs \<or>
       key \<noteq> ''shuffle'' \<and> 0 < mli \<and> 0 < mlo \<and> (\<forall>d\<in>set data. well_formed d)) \<and>
      window_end sd bs mli mlo key 0 = Inr e \<and> m \<le> int (length (py_slice sd 0 e)) \<longrightarrow>
      (\<exists>plan. make_batchset data bs mli mlo nb key m sf pr nr = Some (Inr plan)))"
proof (intro conjI impI)
  assume "key \<noteq> ''shuffle'' \<and> key \<noteq> ''input'' \<and> key \<noteq> ''output''"
  then show "make_batchset data bs mli mlo nb key m sf pr nr =
        Some (Inl (ValueError ''batch_sort_key should be selected from None, input, and output.''))"
    by (simp add: make_batchset_def sort_data_def)
next
  assume h: "sort_data data key sf pr = Inr sd \<and> int (length data) < m"
  then have "length sd = length data" using length_sort_data [of data key sf pr sd] by simp
  with h show "make_batchset data bs mli mlo nb key m sf pr nr =
        Some (Inl (ValueError ''#utts is less than min_batch_size.''))"
    by (simp add: make_batchset_def)
next
  assume h: "sort_data data key sf pr = Inr sd \<and> m \<le> int (length data) \<and> data \<noteq> [] \<and>
      (key = ''shuffle'' \<and> 1 \<le> bs \<or>
       key \<noteq> ''shuffle'' \<and> 0 < mli \<and> 0 < mlo \<and> (\<forall>d\<in>set data. well_formed d)) \<and>
      window_end sd bs mli mlo key 0 = Inr e \<and> m \<le> int (length (py_slice sd 0 e))"
  then have sd: "sort_data data key sf pr = Inr sd" by simp
  have len: "length sd = length data" by (rule length_sort_data [OF sd])
  have "set sd = set data" using mset_sort_data [OF sd] by (rule mset_eq_setD)
  with h have sane: "key = ''shuffle'' \<and> 1 \<le> bs \<or>
       key \<noteq> ''shuffle'' \<and> 0 < mli \<and> 0 < mlo \<and> (\<forall>d\<in>set sd. well_formed d)" by simp
  from h len have pos: "(0::int) \<le> 0" "0 < int (length sd)" by auto
  from h have first: "0 < (0::int) \<or>
       (\<forall>e. window_end sd bs mli mlo key 0 = Inr e \<longrightarrow> m \<le> int (length (py_slice sd 0 e)))"
    by simp
  from batch_loop_returns [OF sane pos first, of sf nr "[]"] obtain p0 where
    "batch_loop sd bs mli mlo key m sf 0 nr [] = Some (Inr p0)" by blast
  with sd h len show "\<exists>plan. make_batchset data bs mli mlo nb key m sf pr nr = Some (Inr plan)"
    by (simp add: make_batchset_def)
qed

theorem make_batchset_errors_counterexample:
  "''input'' \<in> {''shuffle'', ''input'', ''output''} \<and>
   \<not> int (length (example_corpus 10 10)) < 1 \<and>
   make_batchset (example_corpus 10 10) 2 0 1000 0 ''input'' 1 False (const_rng 0) (const_rng 0)
     = Some (Inl ZeroDivisionError)"
  by (simp add: eval_defs example_corpus_def)

theorem make_batchset_errors_witness:
  "make_batchset corpus4 3 1000 1000 0 ''length'' 9 False (const_rng 0) (const_rng 1)
     = Some (Inl (ValueError ''batch_sort_key should be selected from None, input, and output.''))
   \<and> make_batchset corpus4 3 1000 1000 0 ''output'' 5 False (const_rng 0) (const_rng 1)
     = Some (Inl (ValueError ''#utts is less than min_batch_size.''))
   \<and> (\<exists>plan. make_batchset corpus4 3 1000 1000 0 ''output'' 2 False (const_rng 0) (const_rng 1)
               = Some (Inr plan))"
proof -
  let ?t = "[(''d'', mk_utt 8 6), (''b'', mk_utt 9 4), (''a'', mk_utt 7 3), (''c'', mk_utt 5 2)]"
  have t: "sort_data corpus4 ''output'' False (const_rng 0) = Inr ?t"
    by (simp add: sort_data_def py_sorted_def first_len_def corpus4_def mk_utt_def)
  have w: "window_end ?t 3 1000 1000 ''output'' 0 = Inr 3"
    by (simp add: window_end_def py_index_def first_len_def mk_utt_def int_truediv_def)
  have wf: "\<forall>d\<in>set corpus4. well_formed d"
    by (simp add: corpus4_def well_formed_def first_len_def mk_utt_def)
  have a: "make_batchset corpus4 3 1000 1000 0 ''length'' 9 False (const_rng 0) (const_rng 1)
     = Some (Inl (ValueError ''batch_sort_key should be selected from None, input, and output.''))"
    using make_batchset_errors [where key = "''length''" and data = corpus4] by simp
  have b: "make_batchset corpus4 3 1000 1000 0 ''output'' 5 False (const_rng 0) (const_rng 1)
     = Some (Inl (ValueError ''#utts is less than min_batch_size.''))"
    using make_batchset_errors [where key = "''output''" and data = corpus4 and sf = False
        and pr = "const_rng 0" and sd = ?t and m = 5] t
    by (simp add: corpus4_def)
  have c: "\<exists>plan. make_batchset corpus4 3 1000 1000 0 ''output'' 2 False (const_rng 0) (const_rng 1)
               = Some (Inr plan)"
    using make_batchset_errors [where key = "''output''" and data = corpus4 and sf = False
        and pr = "const_rng 0" and sd = ?t and m = 2 and bs = 3 and mli = 1000 and mlo = 1000
        and e = 3 and nb = 0 and nr = "const_rng 1"] t w wf
    by (simp add: py_slice_def slice_bound_def) (simp add: corpus4_def)
  from a b c show ?thesis by blast
qed

text \<open>
  Claim C10. When the first window (start offset 0) holds fewer than \<open>min_batch_size\<close>
  items, \<open>make_batchset\<close> returns no plan: the padding step draws from the empty range
  \<open>[0, 0)\<close> and the \<open>ValueError\<close> of \<open>np.random.randint\<close> propagates. This happens
  with the key \<open>shuffle\<close> for every batch size \<open>0 \<le> batch_size < min_batch_size\<close>, and
  with the keys \<open>input\<close> and \<open>output\<close> whenever the adaptive size of the first window
  is below \<open>min_batch_size\<close>.
\<close>

theorem first_short_batch_raises:
  "(sort_data data key sf pr = Inr sd \<and> m \<le> int (length sd) \<and>
    window_end sd bs mli mlo key 0 = Inr e \<and> int (length (py_slice sd 0 e)) < m \<longrightarrow>
      make_batchset data bs mli mlo nb key m sf pr nr = Some (Inl (ValueError ''low >= high'')))
   \<and> (0 \<le> bs' \<and> bs' < m' \<and> m' \<le> int (length data') \<longrightarrow>
      make_batchset data' bs' mli' mlo' nb' ''shuffle'' m' sf' pr' nr'
        = Some (Inl (ValueError ''low >= high'')))
   \<and> ((k = ''input'' \<or> k = ''output'') \<and> sort_data d k f p = Inr s \<and> mn \<le> int (length s) \<and>
      first_len (utt_output (snd (s ! 0))) = Inr ilen \<and>
      first_len (utt_input (snd (s ! 0))) = Inr olen \<and>
      0 \<le> ilen \<and> 0 \<le> olen \<and> 0 < mi \<and> 0 < mo \<and>
      max 1 (b div (1 + max (ilen div mi) (olen div mo))) < mn \<longrightarrow>
      make_batchset d b mi mo nbt k mn f p r = Some (Inl (ValueError ''low >= high'')))"
proof (intro conjI impI)
  assume "sort_data data key sf pr = Inr sd \<and> m \<le> int (length sd) \<and>
    window_end sd bs mli mlo key 0 = Inr e \<and> int (length (py_slice sd 0 e)) < m"
  then show "make_batchset data bs mli mlo nb key m sf pr nr
               = Some (Inl (ValueError ''low >= high''))"
    using make_batchset_first_short by blast
next
  assume h: "0 \<le> bs' \<and> bs' < m' \<and> m' \<le> int (length data')"
  let ?sd = "random_sample pr' 0 data'"
  have sd: "sort_data data' ''shuffle'' sf' pr' = Inr ?sd" by (simp add: sort_data_def)
  have len: "length ?sd = length data'" by (rule length_random_sample)
  have we: "window_end ?sd bs' mli' mlo' ''shuffle'' 0 = Inr bs'"
    using h by (simp add: window_end_def len)
  have "int (length (py_slice ?sd 0 bs')) = bs'"
    using h by (simp add: length_py_slice_window len)
  with h have short: "int (length (py_slice ?sd 0 bs')) < m'" by simp
  from h have n: "m' \<le> int (length ?sd)" by (simp add: len)
  show "make_batchset data' bs' mli' mlo' nb' ''shuffle'' m' sf' pr' nr'
          = Some (Inl (ValueError ''low >= high''))"
    by (rule make_batchset_first_short [OF sd n we short])
next
  assume h: "(k = ''input'' \<or> k = ''output'') \<and> sort_data d k f p = Inr s \<and> mn \<le> int (length s) \<and>
      first_len (utt_output (snd (s ! 0))) = Inr ilen \<and>
      first_len (utt_input (snd (s ! 0))) = Inr olen \<and>
      0 \<le> ilen \<and> 0 \<le> olen \<and> 0 < mi \<and> 0 < mo \<and>
      max 1 (b div (1 + max (ilen div mi) (olen div mo))) < mn"
  let ?eff = "max 1 (b div (1 + max (ilen div mi) (olen div mo)))"
  from h have key: "k \<noteq> ''shuffle''" by auto
  from h have eff: "1 \<le> ?eff" "?eff < mn" "mn \<le> int (length s)" by auto
  then have pos: "0 < int (length s)" by linarith
  have we: "window_end s b mi mo k 0 = Inr ?eff"
    using window_end_formula [OF key, of 0 s ilen olen mi mo b] h pos eff by simp
  have "int (length (py_slice s 0 ?eff)) = ?eff"
    using eff by (subst length_py_slice_window) simp_all
  with eff have short: "int (length (py_slice s 0 ?eff)) < mn" by simp
  from h have sd: "sort_data d k f p = Inr s" and n: "mn \<le> int (length s)" by auto
  show "make_batchset d b mi mo nbt k mn f p r = Some (Inl (ValueError ''low >= high''))"
    by (rule make_batchset_first_short [OF sd n we short])
qed

theorem first_short_batch_raises_witness:
  "make_batchset corpus4 1 1 1 0 ''shuffle'' 2 False (const_rng 0) (const_rng 0)
     = Some (Inl (ValueError ''low >= high'')) \<and>
   make_batchset corpus4 3 4 4 0 ''input'' 2 True (const_rng 0) (const_rng 1)
     = Some (Inl (ValueError ''low >= high'')) \<and>
   make_batchset corpus4 2 1000 1000 0 ''input'' 3 False (const_rng 0) (const_rng 1)
     = Some (Inl (ValueError ''low >= high''))"
proof -
  let ?s = "[(''c'', mk_utt 5 2), (''a'', mk_utt 7 3), (''d'', mk_utt 8 6), (''b'', mk_utt 9 4)]"
  let ?t = "[(''b'', mk_utt 9 4), (''d'', mk_utt 8 6), (''a'', mk_utt 7 3), (''c'', mk_utt 5 2)]"
  have s: "sort_data corpus4 ''input'' True (const_rng 0) = Inr ?s"
    by (simp add: sort_data_def py_sorted_def first_len_def corpus4_def mk_utt_def)
  have t: "sort_data corpus4 ''input'' False (const_rng 0) = Inr ?t"
    by (simp add: sort_data_def py_sorted_def first_len_def corpus4_def mk_utt_def)
  have w: "window_end ?s 3 4 4 ''input'' 0 = Inr 1"
    by (simp add: window_end_def py_index_def first_len_def mk_utt_def int_truediv_def)
  have a: "make_batchset corpus4 1 1 1 0 ''shuffle'' 2 False (const_rng 0) (const_rng 0)
     = Some (Inl (ValueError ''low >= high''))"
    using first_short_batch_raises [where bs' = 1 and m' = 2 and data' = corpus4]
    by (simp add: corpus4_def)
  have b: "make_batchset corpus4 3 4 4 0 ''input'' 2 True (const_rng 0) (const_rng 1)
     = Some (Inl (ValueError ''low >= high''))"
    using first_short_batch_raises [where data = corpus4 and key = "''input''" and sf = True
        and pr = "const_rng 0" and sd = ?s and m = 2 and bs = 3 and mli = 4 and mlo = 4
        and e = 1] s w
    by (simp add: py_slice_def slice_bound_def)
  have c: "make_batchset corpus4 2 1000 1000 0 ''input'' 3 False (const_rng 0) (const_rng 1)
     = Some (Inl (ValueError ''low >= high''))"
    using first_short_batch_raises [where k = "''input''" and d = corpus4 and f = False
        and p = "const_rng 0" and s = ?t and mn = 3 and ilen = 9 and olen = 4 and mi = 1000
        and mo = 1000 and b = 2] t
    by (simp add: first_len_def mk_utt_def)
  from a b c show ?thesis by simp
qed

section \<open>Subsampling keeps every k-th frame\<close>

lemma ceil_step:
  fixes K T :: nat
  assumes "0 < K"
  shows "(Suc T + K - 1) div K = (T + K - 1) div K + (if K dvd T then 1 else 0)"
proof (cases "K dvd T")
  case True
  then obtain q where q: "T = K * q" by (auto simp: dvd_def)
  have "(K * q + K - 1) div K = q"
  proof -
    have "K * q + K - 1 = (K - 1) + q * K" using assms by (simp add: algebra_simps)
    then show ?thesis using assms by (simp only: div_mult_self1) simp
  qed
  moreover have "(Suc (K * q) + K - 1) div K = Suc q" using assms by simp
  ultimately show ?thesis using True q by simp
next
  case False
  obtain q r where T: "T = r + q * K" and r: "0 < r" "r < K"
  proof
    show "T = T mod K + (T div K) * K" by simp
    show "0 < T mod K" using False by (simp add: dvd_eq_mod_eq_0)
    show "T mod K < K" using assms by simp
  qed
  have a: "(T + K - 1) div K = Suc q"
  proof -
    have "r + q * K + K - 1 = (r - 1) + Suc q * K" using r by simp
    then have "(T + K - 1) div K = ((r - 1) + Suc q * K) div K" by (simp only: T)
    also have "\<dots> = (r - 1) div K + Suc q" using assms by (simp only: div_mult_self1)
    also have "\<dots> = Suc q" using r by simp
    finally show ?thesis .
  qed
  have b: "(Suc T + K - 1) div K = Suc q"
  proof -
    have "Suc (r + q * K) + K - 1 = r + Suc q * K" by simp
    then have "(Suc T + K - 1) div K = (r + Suc q * K) div K" by (simp only: T)
    also have "\<dots> = r div K + Suc q" using assms by (simp only: div_mult_self1)
    also have "\<dots> = Suc q" using r by simp
    finally show ?thesis .
  qed
  from a b False show ?thesis by simp
qed

lemma stride_indices:
  fixes K :: nat
  assumes "0 < K"
  shows "filter (\<lambda>i. K dvd i) [0..<T] = map (\<lambda>j. j * K) [0..<(T + K - 1) div K]"
proof (induction T)
  case 0
  then show ?case using assms by simp
next
  case (Suc T)
  show ?case
  proof (cases "K dvd T")
    case True
    then obtain q where q: "T = K * q" by (auto simp: dvd_def)
    have "(T + K - 1) div K = q"
    proof -
      have "K * q + K - 1 = (K - 1) + q * K" using assms by (simp add: algebra_simps)
      then show ?thesis using assms q by (simp only: div_mult_self1) simp
    qed
    with True Suc ceil_step [OF assms, of T] q show ?thesis by (simp add: mult.commute)
  next
    case False
    with Suc ceil_step [OF assms, of T] show ?thesis by simp
  qed
qed

lemma subsample_eq:
  assumes "1 \<le> k"
  shows "subsample k x =
         map (\<lambda>j. x ! (j * nat k)) [0..<(length x + nat k - 1) div nat k]"
proof -
  have pos: "0 < nat k" using assms by simp
  have "(\<lambda>i. int i mod k = 0) = (\<lambda>i. nat k dvd i)"
  proof
    fix i
    have "int i mod k = 0 \<longleftrightarrow> k dvd int i" by (simp add: dvd_eq_mod_eq_0)
    also have "\<dots> \<longleftrightarrow> int (nat k) dvd int i" using assms by simp
    also have "\<dots> \<longleftrightarrow> nat k dvd i" by (simp only: int_dvd_int_iff)
    finally show "(int i mod k = 0) = (nat k dvd i)" .
  qed
  then show ?thesis
    by (simp add: subsample_def stride_indices [OF pos] comp_def)
qed

lemma length_subsample:
  assumes "1 \<le> k"
  shows "int (length (subsample k x)) = (int (length x) + k - 1) div k"
proof -
  have "length (subsample k x) = (length x + nat k - 1) div nat k"
    by (simp add: subsample_eq [OF assms])
  moreover have "int ((length x + nat k - 1) div nat k) = (int (length x) + k - 1) div k"
    using assms by (simp add: zdiv_int of_nat_diff)
  ultimately show ?thesis by simp
qed

lemma nth_subsample:
  assumes "1 \<le> k" and "j < length (subsample k x)"
  shows "subsample k x ! j = x ! (j * nat k)"
  using assms(2) by (simp add: subsample_eq [OF assms(1)])

lemma converter_call_single:
  "converter_call k f32 i32 [(xs, ys)] dev =
     Inr (map (map (map f32)) (if 1 < k then map (subsample k) xs else xs),
          map (\<lambda>x. int (length x)) (if 1 < k then map (subsample k) xs else xs),
          map (map i32) ys)"
  by (simp add: converter_call_def Let_def)

text \<open>
  Claim C9. \<open>CustomConverter.__call__\<close> fails its assertion unless the outer batch has
  length exactly 1. For a subsampling factor \<open>k > 1\<close> every input sequence keeps the
  frames at the indices \<open>0, k, 2k, ...\<close> (a stride, the other frames are dropped), and
  the returned length of input \<open>i\<close> is the number of frames kept, \<open>ceil (T_i / k)\<close>,
  which is the length of the returned sequence before any padding. For a factor of at
  most 1 the sequences are not subsampled and the lengths are those of the inputs.
\<close>

theorem converter_contract:
  "(length batch \<noteq> 1 \<longrightarrow> converter_call k f32 i32 batch dev = Inl AssertionError)
   \<and> (batch = [(xs, ys)] \<and> 1 < k \<longrightarrow>
       (\<exists>xs' ilens. converter_call k f32 i32 batch dev = Inr (xs', ilens, map (map i32) ys)
          \<and> length xs' = length xs \<and> length ilens = length xs
          \<and> (\<forall>i<length xs.
                ilens ! i = (int (length (xs ! i)) + k - 1) div k
              \<and> int (length (xs' ! i)) = ilens ! i
              \<and> (\<forall>j<length (xs' ! i). xs' ! i ! j = map f32 (xs ! i ! (j * nat k))))))
   \<and> (batch = [(xs, ys)] \<and> k \<le> 1 \<longrightarrow>
       converter_call k f32 i32 batch dev =
         Inr (map (map (map f32)) xs, map (\<lambda>x. int (length x)) xs, map (map i32) ys))"
proof (intro conjI impI)
  assume "length batch \<noteq> 1"
  then show "converter_call k f32 i32 batch dev = Inl AssertionError"
    by (cases batch; cases "tl batch") (auto simp: converter_call_def split: list.splits)
next
  assume h: "batch = [(xs, ys)] \<and> 1 < k"
  then have k: "1 \<le> k" by simp
  let ?xs' = "map (map (map f32)) (map (subsample k) xs)"
  let ?il = "map (\<lambda>x. int (length x)) (map (subsample k) xs)"
  have call: "converter_call k f32 i32 batch dev = Inr (?xs', ?il, map (map i32) ys)"
    using h by (simp add: converter_call_single)
  have "?il ! i = (int (length (xs ! i)) + k - 1) div k
        \<and> int (length (?xs' ! i)) = ?il ! i
        \<and> (\<forall>j<length (?xs' ! i). ?xs' ! i ! j = map f32 (xs ! i ! (j * nat k)))"
    if "i < length xs" for i
    using that by (simp add: length_subsample [OF k] nth_subsample [OF k])
  with call show "\<exists>xs' ilens. converter_call k f32 i32 batch dev = Inr (xs', ilens, map (map i32) ys)
          \<and> length xs' = length xs \<and> length ilens = length xs
          \<and> (\<forall>i<length xs.
                ilens ! i = (int (length (xs ! i)) + k - 1) div k
              \<and> int (length (xs' ! i)) = ilens ! i
              \<and> (\<forall>j<length (xs' ! i). xs' ! i ! j = map f32 (xs ! i ! (j * nat k))))"
    by (intro exI [of _ ?xs'] exI [of _ ?il]) simp
next
  assume "batch = [(xs, ys)] \<and> k \<le> 1"
  then show "converter_call k f32 i32 batch dev =
         Inr (map (map (map f32)) xs, map (\<lambda>x. int (length x)) xs, map (map i32) ys)"
    by (simp add: converter_call_single)
qed

theorem converter_contract_witness:
  "converter_call 2 id id [] 0
     = (Inl AssertionError :: error + (int list list list \<times> int list \<times> int list list)) \<and>
   converter_call 2 id id [(example_inputs, example_targets)] 0
     = Inr ([[[1, 10], [3, 30], [5, 50]], [[6, 60]]], [3, 1], example_targets) \<and>
   (\<exists>xs' ilens. converter_call 2 id id [(example_inputs, example_targets)] 0
                  = Inr (xs', ilens, map (map id) example_targets) \<and>
      (\<forall>i<length example_inputs.
          ilens ! i = (int (length (example_inputs ! i)) + 2 - 1) div 2)) \<and>
   converter_call 1 id id [(example_inputs, example_targets)] 0
     = Inr (example_inputs, [5, 2], example_targets)"
proof -
  have a: "converter_call 2 id id [] 0 = (Inl AssertionError ::
             error + (int list list list \<times> int list \<times> int list list))"
    using converter_contract [where batch = "[]" and k = 2 and ?f32.0 = id and ?i32.0 = id
        and dev = 0 and xs = example_inputs and ys = example_targets] by simp
  have b: "converter_call 2 id id [(example_inputs, example_targets)] 0
     = Inr ([[[1, 10], [3, 30], [5, 50]], [[6, 60]]], [3, 1], example_targets)"
    by (simp add: converter_call_single subsample_def example_inputs_def)
  have c: "\<exists>xs' ilens. converter_call 2 id id [(example_inputs, example_targets)] 0
                  = Inr (xs', ilens, map (map id) example_targets) \<and>
      (\<forall>i<length example_inputs.
          ilens ! i = (int (length (example_inputs ! i)) + 2 - 1) div 2)"
    using converter_contract [where batch = "[(example_inputs, example_targets)]" and k = 2
        and ?f32.0 = id and ?i32.0 = id and dev = 0 and xs = example_inputs
        and ys = example_targets] by simp blast
  have d: "converter_call 1 id id [(example_inputs, example_targets)] 0
     = Inr (example_inputs, [5, 2], example_targets)"
    using converter_contract [where batch = "[(example_inputs, example_targets)]" and k = 1
        and ?f32.0 = id and ?i32.0 = id and dev = 0 and xs = example_inputs
        and ys = example_targets] by (simp add: example_inputs_def)
  from a b c d show ?thesis by blast
qed

section \<open>Partition into shards and cyclic padding\<close>

lemma json_subset_indices:
  "json_subset ngpu gid xs =
     map (\<lambda>i. xs ! i) (filter (\<lambda>i. i mod ngpu = gid) [0..<length xs])"
proof -
  have "enumerate 0 xs = map (\<lambda>i. (i, xs ! i)) [0..<length xs]"
    by (rule nth_equalityI) (simp_all add: nth_enumerate_eq)
  then show ?thesis
    by (simp add: json_subset_def filter_map comp_def)
qed


lemma json_subset_snoc:
  "json_subset ngpu gid (xs @ [x]) =
     json_subset ngpu gid xs @ (if length xs mod ngpu = gid then [x] else [])"
  by (simp add: json_subset_indices nth_append)

lemma sum_list_single:
  "c < k \<Longrightarrow> sum_list (map (\<lambda>g. if c = g then {#x#} else {#}) [0..<k]) = {#x#}"
  "k \<le> c \<Longrightarrow> sum_list (map (\<lambda>g. if c = g then {#x#} else {#}) [0..<k]) = {#}"
  by (induction k) auto

lemma mset_json_subsets:
  assumes "0 < ngpu"
  shows "mset (concat (map (\<lambda>gid. json_subset ngpu gid xs) [0..<ngpu])) = mset xs"
proof (induction xs rule: rev_induct)
  case Nil
  have "concat (map (\<lambda>gid. json_subset ngpu gid ([]::'a list)) [0..<ngpu]) = []"
    by (simp add: json_subset_def)
  then show ?case by simp
next
  case (snoc x xs)
  let ?c = "length xs mod ngpu"
  have c: "?c < ngpu" using assms by simp
  have pt: "mset (json_subset ngpu gid (xs @ [x]))
            = mset (json_subset ngpu gid xs) + (if ?c = gid then {#x#} else {#})" for gid
    by (simp add: json_subset_snoc)
  have "mset (concat (map (\<lambda>gid. json_subset ngpu gid (xs @ [x])) [0..<ngpu]))
        = sum_list (map (\<lambda>gid. mset (json_subset ngpu gid (xs @ [x]))) [0..<ngpu])"
    by (simp add: mset_concat comp_def)
  also have "\<dots> = sum_list (map (\<lambda>gid. mset (json_subset ngpu gid xs)
                               + (if ?c = gid then {#x#} else {#})) [0..<ngpu])"
    by (simp only: pt)
  also have "\<dots> = sum_list (map (\<lambda>gid. mset (json_subset ngpu gid xs)) [0..<ngpu])
                   + sum_list (map (\<lambda>gid. if ?c = gid then {#x#} else {#}) [0..<ngpu])"
    by (rule sum_list_addf)
  also have "\<dots> = mset (concat (map (\<lambda>gid. json_subset ngpu gid xs) [0..<ngpu])) + {#x#}"
    by (simp add: mset_concat comp_def sum_list_single(1) [OF c])
  finally show ?case using snoc.IH by simp
qed

lemma json_subset_member:
  assumes "i < length xs"
  shows "xs ! i \<in> set (json_subset ngpu (i mod ngpu) xs)"
  using assms by (auto simp: json_subset_indices)

lemma json_subset_disjoint:
  assumes "distinct xs" and "g \<noteq> g'"
  shows "set (json_subset ngpu g xs) \<inter> set (json_subset ngpu g' xs) = {}"
  using assms by (auto simp: json_subset_indices nth_eq_iff_index_eq)

lemma extend_subset_Inr:
  assumes "extend_subset i r s = Inr t" and "length s = l0 + i"
    and "\<forall>j<length s. s ! j = s0 ! (j mod l0)"
  shows "length t = l0 + i + r \<and> (\<forall>j<length t. t ! j = s0 ! (j mod l0))"
  using assms
proof (induction r arbitrary: i s)
  case 0
  then show ?case by simp
next
  case (Suc r)
  from Suc.prems(1) have i: "i < length s"
    and rec: "extend_subset (Suc i) r (s @ [s ! i]) = Inr t"
    by (auto split: if_splits)
  have len: "length (s @ [s ! i]) = l0 + Suc i" using Suc.prems(2) by simp
  have "(s @ [s ! i]) ! j = s0 ! (j mod l0)" if "j < length (s @ [s ! i])" for j
  proof (cases "j < length s")
    case True
    with Suc.prems(3) show ?thesis by (simp add: nth_append)
  next
    case False
    with that have j: "j = l0 + i" using Suc.prems(2) by simp
    have "(s @ [s ! i]) ! j = s ! i" using j Suc.prems(2) by (simp add: nth_append)
    also have "\<dots> = s0 ! (i mod l0)" using Suc.prems(3) i by simp
    also have "i mod l0 = j mod l0" using j by simp
    finally show ?thesis .
  qed
  with Suc.IH [OF rec len] show ?case by simp
qed

lemma extend_subset_ok:
  "i < length s \<Longrightarrow> \<exists>t. extend_subset i r s = Inr t"
  by (induction r arbitrary: i s) auto

lemma padded_subset:
  assumes "(if maxlen \<noteq> length s then extend_subset 0 (maxlen - length s) s else Inr s) = Inr t"
    and "length s \<le> maxlen"
  shows "length t = maxlen \<and> (\<forall>j<length t. t ! j = s ! (j mod length s))"
proof (cases "maxlen = length s")
  case True
  with assms show ?thesis by simp
next
  case False
  with assms(1) have e: "extend_subset 0 (maxlen - length s) s = Inr t" by simp
  have "length s = length s + 0" by simp
  moreover have "\<forall>j<length s. s ! j = s ! (j mod length s)" by simp
  ultimately have "length t = length s + 0 + (maxlen - length s)
      \<and> (\<forall>j<length t. t ! j = s ! (j mod length s))"
    by (rule extend_subset_Inr [OF e])
  with assms(2) show ?thesis by simp
qed

lemma equalize_subsets_Inr:
  assumes "equalize_subsets ss = Inr ps"
  shows "length ps = length ss \<and>
         (\<forall>g<length ss. length (ps ! g) = py_max (map length ss) \<and>
             (\<forall>j<length (ps ! g). ps ! g ! j = ss ! g ! (j mod length (ss ! g))))"
proof -
  let ?m = "py_max (map length ss)"
  let ?f = "\<lambda>s. if ?m \<noteq> length s then extend_subset 0 (?m - length s) s else Inr s"
  from assms have ne: "ss \<noteq> []" and sq: "sequence (map ?f ss) = Inr ps"
    by (auto simp: equalize_subsets_def Let_def split: if_splits)
  from sequence_Inr [OF sq] have m: "map ?f ss = map Inr ps" .
  have len: "length ps = length ss" using arg_cong [OF m, of length] by simp
  have "length (ps ! g) = ?m \<and>
        (\<forall>j<length (ps ! g). ps ! g ! j = ss ! g ! (j mod length (ss ! g)))"
    if g: "g < length ss" for g
  proof -
    have "?f (ss ! g) = map ?f ss ! g" using g by simp
    also have "\<dots> = Inr (ps ! g)" using g len by (simp add: m)
    finally have fg: "?f (ss ! g) = Inr (ps ! g)" .
    have "length (ss ! g) \<in> set (map length ss)" using g by simp
    then have le: "length (ss ! g) \<le> ?m" by (simp add: py_max_def)
    from padded_subset [OF fg le] show ?thesis .
  qed
  with len show ?thesis by blast
qed

lemma equalize_subsets_ok:
  assumes "ss \<noteq> []" and "\<forall>s\<in>set ss. s \<noteq> []"
  shows "\<exists>ps. equalize_subsets ss = Inr ps"
proof -
  let ?m = "py_max (map length ss)"
  let ?f = "\<lambda>s. if ?m \<noteq> length s then extend_subset 0 (?m - length s) s else Inr s"
  have "\<exists>x. r = Inr x" if "r \<in> set (map ?f ss)" for r
  proof -
    from that obtain s where s: "s \<in> set ss" "r = ?f s" by auto
    with assms(2) have "0 < length s" by simp
    from extend_subset_ok [OF this] s(2) show ?thesis by auto
  qed
  from sequence_all_Inr [OF this] obtain ps where "sequence (map ?f ss) = Inr ps" by blast
  with assms(1) show ?thesis by (simp add: equalize_subsets_def Let_def)
qed

lemma train_subsets_Inr:
  assumes "train_subsets mk ngpu train_json = Inr padded"
  shows "\<exists>subsets. length subsets = ngpu \<and> length padded = ngpu \<and>
           (\<forall>gid<ngpu. mk (json_subset ngpu gid train_json) = Inr (subsets ! gid) \<and>
              length (padded ! gid) = py_max (map length subsets) \<and>
              (\<forall>j<length (padded ! gid).
                  padded ! gid ! j = subsets ! gid ! (j mod length (subsets ! gid))))"
proof -
  let ?f = "\<lambda>gid. mk (json_subset ngpu gid train_json)"
  from assms obtain ss where sq: "sequence (map ?f [0..<ngpu]) = Inr ss"
    and eq: "equalize_subsets ss = Inr padded"
    by (auto simp: train_subsets_def split: sum.splits)
  from sequence_Inr [OF sq] have m: "map ?f [0..<ngpu] = map Inr ss" .
  have len: "length ss = ngpu" using arg_cong [OF m, of length] by simp
  have mk: "?f gid = Inr (ss ! gid)" if "gid < ngpu" for gid
  proof -
    have "?f gid = map ?f [0..<ngpu] ! gid" using that by simp
    also have "\<dots> = Inr (ss ! gid)" using that len by (simp add: m)
    finally show ?thesis .
  qed
  from equalize_subsets_Inr [OF eq] len mk show ?thesis by auto
qed

lemma train_subsets_ok:
  assumes "0 < ngpu"
    and "\<forall>gid<ngpu. \<exists>s. mk (json_subset ngpu gid train_json) = Inr s \<and> s \<noteq> []"
  shows "\<exists>padded. train_subsets mk ngpu train_json = Inr padded"
proof -
  let ?f = "\<lambda>gid. mk (json_subset ngpu gid train_json)"
  have "\<exists>x. r = Inr x" if "r \<in> set (map ?f [0..<ngpu])" for r
    using that assms(2) by auto
  from sequence_all_Inr [OF this] obtain ss where sq: "sequence (map ?f [0..<ngpu]) = Inr ss"
    by blast
  from sequence_Inr [OF sq] have m: "map ?f [0..<ngpu] = map Inr ss" .
  have len: "length ss = ngpu" using arg_cong [OF m, of length] by simp
  have ne: "ss \<noteq> []" using len assms(1) by auto
  have "s \<noteq> []" if "s \<in> set ss" for s
  proof -
    from that obtain gid where gid: "gid < ngpu" "s = ss ! gid"
      using len by (auto simp: in_set_conv_nth)
    have "?f gid = map ?f [0..<ngpu] ! gid" using gid by simp
    also have "\<dots> = Inr s" using gid len by (simp add: m)
    finally show ?thesis using assms(2) gid(1) by auto
  qed
  then have "\<forall>s\<in>set ss. s \<noteq> []" by blast
  from equalize_subsets_ok [OF ne this] sq show ?thesis
    by (simp add: train_subsets_def)
qed

text \<open>
  Claim C8. With \<open>ngpu\<close> devices the entry at enumeration index \<open>i\<close> of the corpus
  goes to device \<open>i mod ngpu\<close>; the subsets of two different devices are disjoint and
  together they hold every entry of the corpus exactly once. When the setup returns, the
  batch list of every device has the length of the longest one, and position \<open>j\<close> of a
  padded list holds the batch at position \<open>j mod n\<close> of the device's own list of \<open>n\<close>
  batches: the list is extended by repeating its own batches from the first on. The setup
  does return when every device has at least one batch.
\<close>

theorem shards_partition_and_padding:
  "(0 < ngpu \<longrightarrow>
      mset (concat (map (\<lambda>gid. json_subset ngpu gid train_json) [0..<ngpu])) = mset train_json)
   \<and> (i < length train_json \<longrightarrow>
        train_json ! i \<in> set (json_subset ngpu (i mod ngpu) train_json))
   \<and> (distinct train_json \<and> g \<noteq> g' \<longrightarrow>
        set (json_subset ngpu g train_json) \<inter> set (json_subset ngpu g' train_json) = {})
   \<and> (train_subsets mk ngpu train_json = Inr padded \<longrightarrow>
        (\<exists>subsets. length subsets = ngpu \<and> length padded = ngpu \<and>
           (\<forall>gid<ngpu. mk (json_subset ngpu gid train_json) = Inr (subsets ! gid) \<and>
              length (padded ! gid) = py_max (map length subsets) \<and>
              (\<forall>j<length (padded ! gid).
                  padded ! gid ! j = subsets ! gid ! (j mod length (subsets ! gid))))))
   \<and> (0 < ngpu \<and> (\<forall>gid<ngpu. \<exists>s. mk (json_subset ngpu gid train_json) = Inr s \<and> s \<noteq> []) \<longrightarrow>
        (\<exists>padded. train_subsets mk ngpu train_json = Inr padded))"
  using mset_json_subsets [of ngpu train_json] json_subset_member [of i train_json ngpu]
    json_subset_disjoint [of train_json g g' ngpu]
    train_subsets_Inr [of mk ngpu train_json padded]
    train_subsets_ok [of ngpu mk train_json]
  by blast

theorem shards_partition_and_padding_witness:
  "json_subset 2 0 five_utts = [''a'', ''c'', ''e''] \<and>
   json_subset 2 1 five_utts = [''b'', ''d''] \<and>
   train_subsets one_per_batch 2 five_utts
     = Inr [[[''a''], [''c''], [''e'']], [[''b''], [''d''], [''b'']]] \<and>
   mset (concat (map (\<lambda>gid. json_subset 2 gid five_utts) [0..<2])) = mset five_utts \<and>
   five_utts ! 3 \<in> set (json_subset 2 (3 mod 2) five_utts) \<and>
   set (json_subset 2 0 five_utts) \<inter> set (json_subset 2 1 five_utts) = {} \<and>
   (\<exists>subsets. length subsets = 2 \<and>
      (\<forall>gid<2. one_per_batch (json_subset 2 gid five_utts) = Inr (subsets ! gid) \<and>
          length ([[[''a''], [''c''], [''e'']], [[''b''], [''d''], [''b'']]] ! gid)
            = py_max (map length subsets))) \<and>
   (\<exists>padded. train_subsets one_per_batch 2 five_utts = Inr padded)"
proof -
  have s0: "json_subset 2 0 five_utts = [''a'', ''c'', ''e'']"
    and s1: "json_subset 2 1 five_utts = [''b'', ''d'']"
    by code_simp+
  have run: "train_subsets one_per_batch 2 five_utts
     = Inr [[[''a''], [''c''], [''e'']], [[''b''], [''d''], [''b'']]]"
    by code_simp
  have d: "distinct five_utts \<and> (0::nat) \<noteq> 1" by (simp add: five_utts_def)
  have ok: "\<forall>gid<2. \<exists>s. one_per_batch (json_subset 2 gid five_utts) = Inr s \<and> s \<noteq> []"
    using s0 s1 by (auto simp: less_Suc_eq numeral_eq_Suc one_per_batch_def)
  have len: "3 < length five_utts" by (simp add: five_utts_def)
  from shards_partition_and_padding [where ngpu = 2 and train_json = five_utts and i = 3
      and g = 0 and g' = 1 and mk = one_per_batch
      and padded = "[[[''a''], [''c''], [''e'']], [[''b''], [''d''], [''b'']]]"]
    s0 s1 run d ok len
  show ?thesis by (simp del: One_nat_def) blast
qed

section \<open>The gradient norm is NaN exactly when a gradient holds a NaN\<close>

lemma sane_square: "sane (fl_mul a a)" "fl_mul a a = NaN \<longleftrightarrow> a = NaN"
  by (cases a; auto simp: sane_def)+

lemma sane_add:
  assumes "sane x" "sane y"
  shows "sane (fl_add x y)" "fl_add x y = NaN \<longleftrightarrow> x = NaN \<or> y = NaN"
  using assms by (cases x; cases y; auto simp: sane_def)+

lemma sane_foldl:
  assumes "sane acc" and "\<forall>v\<in>set vs. sane v"
  shows "sane (foldl fl_add acc vs) \<and> (foldl fl_add acc vs = NaN \<longleftrightarrow> acc = NaN \<or> NaN \<in> set vs)"
  using assms
proof (induction vs arbitrary: acc)
  case Nil
  then show ?case by simp
next
  case (Cons v vs)
  then have v: "sane v" and vs: "\<forall>v\<in>set vs. sane v" by simp_all
  from sane_add [OF Cons.prems(1) v] Cons.IH [OF _ vs, of "fl_add acc v"]
  show ?case by auto
qed

lemma sane_zero: "sane (Fin 0)" "Fin 0 \<noteq> NaN"
  by (simp_all add: sane_def)

lemma square_nan_image: "NaN \<in> set (map (\<lambda>a. fl_mul a a) x) \<longleftrightarrow> NaN \<in> set x"
proof
  assume "NaN \<in> set (map (\<lambda>a. fl_mul a a) x)"
  then obtain a where a: "a \<in> set x" "fl_mul a a = NaN" by auto
  then have "a = NaN" by (simp add: sane_square(2))
  with a show "NaN \<in> set x" by simp
next
  assume "NaN \<in> set x"
  moreover have "fl_mul NaN NaN = NaN" by simp
  ultimately have "fl_mul NaN NaN \<in> (\<lambda>a. fl_mul a a) ` set x" by (rule_tac imageI)
  then show "NaN \<in> set (map (\<lambda>a. fl_mul a a) x)" by simp
qed

lemma sane_dot: "sane (dot x)" "dot x = NaN \<longleftrightarrow> NaN \<in> set x"
proof -
  have "\<forall>v\<in>set (map (\<lambda>a. fl_mul a a) x). sane v" by (simp add: sane_square)
  from sane_foldl [OF sane_zero(1) this] square_nan_image [of x]
  show "sane (dot x)" "dot x = NaN \<longleftrightarrow> NaN \<in> set x"
    by (simp_all add: dot_def sane_zero(2))
qed

lemma sq_sum_add_sane:
  assumes "\<forall>v\<in>snd ` set sq. sane v" and "sane s"
  shows "(\<forall>v\<in>snd ` set (sq_sum_add sq dev s). sane v) \<and>
         (NaN \<in> snd ` set (sq_sum_add sq dev s) \<longleftrightarrow> NaN \<in> snd ` set sq \<or> s = NaN)"
  using assms
proof (induction sq)
  case Nil
  from sane_add [OF sane_zero(1) Nil(2)] have
    "sane (fl_add (Fin 0) s)" "NaN = fl_add (Fin 0) s \<longleftrightarrow> s = NaN"
    by (auto simp: sane_zero(2))
  then show ?case by simp
next
  case (Cons p sq)
  obtain d v where p: "p = (d, v)" by (cases p)
  from Cons.prems p have v: "sane v" and rest: "\<forall>v\<in>snd ` set sq. sane v" by simp_all
  show ?case
  proof (cases "d = dev")
    case True
    with sane_add [OF v Cons.prems(2)] rest p show ?thesis by auto
  next
    case False
    with Cons.IH [OF rest Cons.prems(2)] v p show ?thesis by auto
  qed
qed

lemma sq_sum_fold_sane:
  assumes "\<forall>v\<in>snd ` set sq. sane v"
  shows "(\<forall>v\<in>snd ` set (foldl (\<lambda>sq_sum x. case x of None \<Rightarrow> sq_sum
                 | Some (dev, data) \<Rightarrow> sq_sum_add sq_sum dev (dot data)) sq arr). sane v) \<and>
         (NaN \<in> snd ` set (foldl (\<lambda>sq_sum x. case x of None \<Rightarrow> sq_sum
                 | Some (dev, data) \<Rightarrow> sq_sum_add sq_sum dev (dot data)) sq arr)
            \<longleftrightarrow> NaN \<in> snd ` set sq \<or> has_nan arr)"
  using assms
proof (induction arr arbitrary: sq)
  case Nil
  then show ?case by (simp add: has_nan_def)
next
  case (Cons x arr)
  show ?case
  proof (cases x)
    case None
    with Cons.IH [OF Cons.prems] show ?thesis by (simp add: has_nan_def)
  next
    case (Some p)
    obtain dev data where p: "p = (dev, data)" by (cases p)
    from sq_sum_add_sane [OF Cons.prems sane_dot(1), of dev data] have
      s: "\<forall>v\<in>snd ` set (sq_sum_add sq dev (dot data)). sane v" and
      n: "NaN \<in> snd ` set (sq_sum_add sq dev (dot data))
            \<longleftrightarrow> NaN \<in> snd ` set sq \<or> NaN \<in> set data"
      by (simp_all add: sane_dot(2))
    have h: "has_nan (x # arr) \<longleftrightarrow> NaN \<in> set data \<or> has_nan arr"
      using Some p by (auto simp: has_nan_def)
    from Cons.IH [OF s] n h Some p show ?thesis by simp
  qed
qed

lemma grad_norm_isnan: "isnan (grad_norm_of grads) \<longleftrightarrow> has_nan grads"
proof -
  let ?sq = "foldl (\<lambda>sq_sum x. case x of None \<Rightarrow> sq_sum
                 | Some (dev, data) \<Rightarrow> sq_sum_add sq_sum dev (dot data)) [] grads"
  have e: "\<forall>v\<in>snd ` set ([] :: (int \<times> fl) list). sane v" by simp
  from sq_sum_fold_sane [OF e, of grads] have
    s: "\<forall>v\<in>set (map snd ?sq). sane v" and n: "NaN \<in> set (map snd ?sq) \<longleftrightarrow> has_nan grads"
    by simp_all
  from sane_foldl [OF sane_zero(1) s] n have
    "sane (sum_sqnorm grads)" "sum_sqnorm grads = NaN \<longleftrightarrow> has_nan grads"
    by (simp_all add: sum_sqnorm_def sane_zero)
  then show ?thesis
    by (cases "sum_sqnorm grads") (auto simp: grad_norm_of_def isnan_def sane_def)
qed

lemma apply_or_skip_nan:
  assumes "isnan (grad_norm_of grads)"
  shows "apply_or_skip env grads u = u\<lparr>target_grads := grads\<rparr>"
  using assms by (simp add: apply_or_skip_def)

lemma apply_or_skip_update:
  assumes "\<not> isnan (grad_norm_of grads)"
  shows "apply_or_skip env grads u =
           u\<lparr>target_grads := grads,
             target_params := optimizer_update env (target_params u) grads,
             opt_t := Suc (opt_t u)\<rparr>"
  using assms by (simp add: apply_or_skip_def)

lemma update_core_Inr:
  assumes "update_core env device u = Inr u'"
  shows "\<exists>x. converter env (fst (iter_next env (train_iter u))) device = Inr x \<and>
             u' = apply_or_skip env
                    (backward env (target_params u) (forward env (target_params u) x))
                    (u\<lparr>train_iter := snd (iter_next env (train_iter u))\<rparr>)"
  using assms by (auto simp: update_core_def Let_def split: prod.splits sum.splits)

text \<open>
  Claim C3. When \<open>update_core\<close> returns and the gradient norm it computed after the
  backward pass is NaN, the optimizer was not called: the parameter values are the ones
  before the call and the optimizer's update count is unchanged. When the norm is not NaN
  the parameters are the result of one \<open>optimizer.update()\<close> on the gradients and the
  count has grown by exactly one. The norm is NaN exactly when some gradient array holds
  a NaN. \<open>update_core\<close> returns whenever the converter accepts the batch. The same
  holds for the parallel updater, on the reduced gradients.
\<close>

theorem nan_gradient_skips_update:
  "(update_core env device u = Inr u' \<longrightarrow>
      (isnan (grad_norm_of (target_grads u')) \<longrightarrow>
         target_params u' = target_params u \<and> opt_t u' = opt_t u) \<and>
      (\<not> isnan (grad_norm_of (target_grads u')) \<longrightarrow>
         target_params u' = optimizer_update env (target_params u) (target_grads u') \<and>
         opt_t u' = Suc (opt_t u)) \<and>
      (isnan (grad_norm_of (target_grads u')) \<longleftrightarrow> has_nan (target_grads u')))
   \<and> (converter env (fst (iter_next env (train_iter u))) device = Inr x \<longrightarrow>
       (\<exists>u'. update_core env device u = Inr u' \<and>
             target_grads u' = backward env (target_params u) (forward env (target_params u) x)))
   \<and> (parallel_update_core env device comm u = Inr u' \<longrightarrow>
      (isnan (grad_norm_of (target_grads u')) \<longrightarrow>
         target_params u' = target_params u \<and> opt_t u' = opt_t u) \<and>
      (\<not> isnan (grad_norm_of (target_grads u')) \<longrightarrow>
         target_params u' = optimizer_update env (target_params u) (target_grads u') \<and>
         opt_t u' = Suc (opt_t u)))"
proof (intro conjI impI)
  assume r: "update_core env device u = Inr u'"
  from update_core_Inr [OF r] obtain g it' where
    u': "u' = apply_or_skip env g (u\<lparr>train_iter := it'\<rparr>)" by blast
  have g: "target_grads u' = g" by (simp add: u' apply_or_skip_def Let_def)
  show "target_params u' = target_params u" if "isnan (grad_norm_of (target_grads u'))"
    using that by (simp add: g) (simp add: u' apply_or_skip_def)
  show "opt_t u' = opt_t u" if "isnan (grad_norm_of (target_grads u'))"
    using that by (simp add: g) (simp add: u' apply_or_skip_def)
  show "target_params u' = optimizer_update env (target_params u) (target_grads u')"
    if "\<not> isnan (grad_norm_of (target_grads u'))"
    using that by (simp add: g) (simp add: u' apply_or_skip_def)
  show "opt_t u' = Suc (opt_t u)" if "\<not> isnan (grad_norm_of (target_grads u'))"
    using that by (simp add: g) (simp add: u' apply_or_skip_def)
  show "isnan (grad_norm_of (target_grads u')) = has_nan (target_grads u')"
    by (rule grad_norm_isnan)
next
  assume c: "converter env (fst (iter_next env (train_iter u))) device = Inr x"
  then show "\<exists>u'. update_core env device u = Inr u' \<and>
             target_grads u' = backward env (target_params u) (forward env (target_params u) x)"
    by (cases "iter_next env (train_iter u)")
       (simp add: update_core_def Let_def apply_or_skip_def)
next
  assume r: "parallel_update_core env device comm u = Inr u'"
  then obtain g it' where u': "u' = apply_or_skip env g (u\<lparr>train_iter := it'\<rparr>)"
    by (auto simp: parallel_update_core_def Let_def split: prod.splits sum.splits)
  have g: "target_grads u' = g" by (simp add: u' apply_or_skip_def Let_def)
  show "target_params u' = target_params u" if "isnan (grad_norm_of (target_grads u'))"
    using that by (simp add: g) (simp add: u' apply_or_skip_def)
  show "opt_t u' = opt_t u" if "isnan (grad_norm_of (target_grads u'))"
    using that by (simp add: g) (simp add: u' apply_or_skip_def)
  show "target_params u' = optimizer_update env (target_params u) (target_grads u')"
    if "\<not> isnan (grad_norm_of (target_grads u'))"
    using that by (simp add: g) (simp add: u' apply_or_skip_def)
  show "opt_t u' = Suc (opt_t u)" if "\<not> isnan (grad_norm_of (target_grads u'))"
    using that by (simp add: g) (simp add: u' apply_or_skip_def)
qed

theorem nan_gradient_skips_update_witness:
  "update_core (toy_env NaN) 0 toy_updater
     = Inr \<lparr>train_iter = 1, target_params = 5,
            target_grads = [Some (0, [NaN, Fin 1])], opt_t = 0\<rparr> \<and>
   update_core (toy_env (Fin 3)) 0 toy_updater
     = Inr \<lparr>train_iter = 1, target_params = 4,
            target_grads = [Some (0, [Fin 3, Fin 1])], opt_t = 1\<rparr> \<and>
   parallel_update_core (toy_env (Fin 3)) 0 (Some (\<lambda>g. None # g)) toy_updater
     = Inr \<lparr>train_iter = 1, target_params = 4,
            target_grads = [None, Some (0, [Fin 3, Fin 1])], opt_t = 1\<rparr> \<and>
   isnan (grad_norm_of [Some (0, [NaN, Fin 1])]) \<and>
   \<not> isnan (grad_norm_of [Some (0, [Fin 3, Fin 1])]) \<and>
   (\<exists>u'. update_core (toy_env NaN) 0 toy_updater = Inr u' \<and>
         target_params u' = target_params toy_updater \<and> opt_t u' = opt_t toy_updater \<and>
         target_grads u' = backward (toy_env NaN) (target_params toy_updater)
                             (forward (toy_env NaN) (target_params toy_updater) 0))"
proof -
  let ?a = "\<lparr>train_iter = 1::nat, target_params = 5::real,
            target_grads = [Some (0, [NaN, Fin 1])], opt_t = 0\<rparr>"
  let ?b = "\<lparr>train_iter = 1::nat, target_params = 4::real,
            target_grads = [Some (0, [Fin 3, Fin 1])], opt_t = 1\<rparr>"
  let ?c = "\<lparr>train_iter = 1::nat, target_params = 4::real,
            target_grads = [None, Some (0, [Fin 3, Fin 1])], opt_t = 1\<rparr>"
  have n1: "isnan (grad_norm_of [Some (0, [NaN, Fin 1])])"
    by (simp add: grad_norm_of_def sum_sqnorm_def dot_def isnan_def)
  have n2: "\<not> isnan (grad_norm_of [Some (0, [Fin 3, Fin 1])])"
    by (simp add: grad_norm_of_def sum_sqnorm_def dot_def isnan_def)
  have n3: "\<not> isnan (grad_norm_of [None, Some (0, [Fin 3, Fin 1])])"
    by (simp add: grad_norm_of_def sum_sqnorm_def dot_def isnan_def)
  have a: "update_core (toy_env NaN) 0 toy_updater = Inr ?a"
    by (simp add: update_core_def toy_env_def toy_updater_def apply_or_skip_nan [OF n1])
  have b: "update_core (toy_env (Fin 3)) 0 toy_updater = Inr ?b"
    by (simp add: update_core_def toy_env_def toy_updater_def apply_or_skip_update [OF n2])
  have c: "parallel_update_core (toy_env (Fin 3)) 0 (Some (\<lambda>g. None # g)) toy_updater = Inr ?c"
    by (simp add: parallel_update_core_def toy_env_def toy_updater_def
        apply_or_skip_update [OF n3])
  have conv: "converter (toy_env NaN) (fst (iter_next (toy_env NaN) (train_iter toy_updater))) 0
                = Inr 0"
    by (simp add: toy_env_def toy_updater_def)
  from nan_gradient_skips_update [where env = "toy_env NaN" and device = 0 and u = toy_updater
      and u' = ?a and x = 0] a n1 conv
  have "target_params ?a = target_params toy_updater \<and> opt_t ?a = opt_t toy_updater"
    and "\<exists>u'. update_core (toy_env NaN) 0 toy_updater = Inr u' \<and>
         target_grads u' = backward (toy_env NaN) (target_params toy_updater)
                             (forward (toy_env NaN) (target_params toy_updater) 0)"
    by simp_all
  with a have "\<exists>u'. update_core (toy_env NaN) 0 toy_updater = Inr u' \<and>
         target_params u' = target_params toy_updater \<and> opt_t u' = opt_t toy_updater \<and>
         target_grads u' = backward (toy_env NaN) (target_params toy_updater)
                             (forward (toy_env NaN) (target_params toy_updater) 0)"
    by auto
  with a b c n1 n2 show ?thesis by blast
qed

section \<open>The loss threshold\<close>

lemma e2e_call_eq:
  "e2e_call nets self xs ilens ys reported =
     Inr (if flag_return self
          then LossTuple (mtl_loss nets (mtlalpha self) xs ilens ys)
                 (if mtlalpha self = 0 then None
                  else Some (ctc nets (fst (enc nets xs ilens)) ys))
                 (if mtlalpha self = 1 then None
                  else Some (fst (dec nets (fst (enc nets xs ilens)) ys)))
                 (if mtlalpha self = 1 then None
                  else Some (snd (dec nets (fst (enc nets xs ilens)) ys)))
          else Loss (mtl_loss nets (mtlalpha self) xs ilens ys),
          self\<lparr>self_acc := (if mtlalpha self = 1 then None
                             else Some (snd (dec nets (fst (enc nets xs ilens)) ys))),
               self_loss := Some (mtl_loss nets (mtlalpha self) xs ilens ys)\<rparr>,
          if fl_less (mtl_loss nets (mtlalpha self) xs ilens ys) CTC_LOSS_THRESHOLD
             \<and> \<not> isnan (mtl_loss nets (mtlalpha self) xs ilens ys)
          then reported @
                 [(''loss_ctc'', if mtlalpha self = 0 then None
                                 else Some (ctc nets (fst (enc nets xs ilens)) ys)),
                  (''loss_att'', if mtlalpha self = 1 then None
                                 else Some (fst (dec nets (fst (enc nets xs ilens)) ys))),
                  (''acc'', if mtlalpha self = 1 then None
                            else Some (snd (dec nets (fst (enc nets xs ilens)) ys))),
                  (''loss'', Some (mtl_loss nets (mtlalpha self) xs ilens ys))]
          else reported)"
  by (cases "enc nets xs ilens"; cases "dec nets (fst (enc nets xs ilens)) ys")
     (simp add: e2e_call_def mtl_loss_def Let_def)

lemma above_threshold: "fl_less CTC_LOSS_THRESHOLD l \<Longrightarrow> \<not> fl_less l CTC_LOSS_THRESHOLD"
  by (cases l) (simp_all add: CTC_LOSS_THRESHOLD_def)

text \<open>
  Claim C7. \<open>E2E.__call__\<close> always returns, and returns the multi-task loss it computed:
  a loss above the threshold 10000 or a NaN loss changes nothing but the reports (no
  observation is added), while a loss below the threshold that is not NaN adds the four
  observations \<open>loss_ctc\<close>, \<open>loss_att\<close>, \<open>acc\<close>, \<open>loss\<close>. The loss plays no part in the
  decision to update: \<open>update_core\<close> applies the optimizer step for a loss above the
  threshold or NaN when the gradients hold no NaN, and skips it for a loss below the
  threshold when they do.
\<close>

theorem loss_threshold_only_reports:
  "(\<exists>res self' reported'.
      e2e_call nets self xs ilens ys reported = Inr (res, self', reported') \<and>
      loss_of res = mtl_loss nets (mtlalpha self) xs ilens ys \<and>
      self_loss self' = Some (loss_of res) \<and>
      (fl_less CTC_LOSS_THRESHOLD (loss_of res) \<or> isnan (loss_of res) \<longrightarrow>
         reported' = reported) \<and>
      (fl_less (loss_of res) CTC_LOSS_THRESHOLD \<and> \<not> isnan (loss_of res) \<longrightarrow>
         length reported' = length reported + 4 \<and>
         last reported' = (''loss'', Some (loss_of res))))
   \<and> (converter env (fst (iter_next env (train_iter u))) device = Inr x \<and>
      forward env (target_params u) x = l \<and>
      (fl_less CTC_LOSS_THRESHOLD l \<or> isnan l) \<and>
      \<not> has_nan (backward env (target_params u) l) \<longrightarrow>
      (\<exists>u'. update_core env device u = Inr u' \<and> opt_t u' = Suc (opt_t u) \<and>
            target_params u' =
              optimizer_update env (target_params u) (backward env (target_params u) l)))
   \<and> (converter env (fst (iter_next env (train_iter u))) device = Inr x \<and>
      forward env (target_params u) x = l \<and>
      fl_less l CTC_LOSS_THRESHOLD \<and> \<not> isnan l \<and>
      has_nan (backward env (target_params u) l) \<longrightarrow>
      (\<exists>u'. update_core env device u = Inr u' \<and> opt_t u' = opt_t u \<and>
            target_params u' = target_params u))"
proof (intro conjI impI)
  let ?l = "mtl_loss nets (mtlalpha self) xs ilens ys"
  obtain res self' reported' where
    r: "e2e_call nets self xs ilens ys reported = Inr (res, self', reported')"
    by (simp add: e2e_call_eq)
  from r have l: "loss_of res = ?l" by (auto simp: e2e_call_eq split: if_splits)
  from r have s: "self_loss self' = Some ?l" by (auto simp: e2e_call_eq)
  from r have rep: "reported' =
      (if fl_less ?l CTC_LOSS_THRESHOLD \<and> \<not> isnan ?l
       then reported @
                 [(''loss_ctc'', if mtlalpha self = 0 then None
                                 else Some (ctc nets (fst (enc nets xs ilens)) ys)),
                  (''loss_att'', if mtlalpha self = 1 then None
                                 else Some (fst (dec nets (fst (enc nets xs ilens)) ys))),
                  (''acc'', if mtlalpha self = 1 then None
                            else Some (snd (dec nets (fst (enc nets xs ilens)) ys))),
                  (''loss'', Some ?l)]
       else reported)"
    by (simp add: e2e_call_eq)
  have bad: "reported' = reported" if "fl_less CTC_LOSS_THRESHOLD ?l \<or> isnan ?l"
    using that above_threshold [of ?l] by (auto simp: rep)
  have good: "length reported' = length reported + 4 \<and> last reported' = (''loss'', Some ?l)"
    if "fl_less ?l CTC_LOSS_THRESHOLD \<and> \<not> isnan ?l"
    using that by (simp add: rep)
  from r l s bad good
  show "\<exists>res self' reported'.
      e2e_call nets self xs ilens ys reported = Inr (res, self', reported') \<and>
      loss_of res = mtl_loss nets (mtlalpha self) xs ilens ys \<and>
      self_loss self' = Some (loss_of res) \<and>
      (fl_less CTC_LOSS_THRESHOLD (loss_of res) \<or> isnan (loss_of res) \<longrightarrow>
         reported' = reported) \<and>
      (fl_less (loss_of res) CTC_LOSS_THRESHOLD \<and> \<not> isnan (loss_of res) \<longrightarrow>
         length reported' = length reported + 4 \<and>
         last reported' = (''loss'', Some (loss_of res)))"
    by (intro exI [of _ res] exI [of _ self'] exI [of _ reported']) simp
next
  assume h: "converter env (fst (iter_next env (train_iter u))) device = Inr x \<and>
      forward env (target_params u) x = l \<and>
      (fl_less CTC_LOSS_THRESHOLD l \<or> isnan l) \<and>
      \<not> has_nan (backward env (target_params u) l)"
  then have n: "\<not> isnan (grad_norm_of (backward env (target_params u) l))"
    by (simp add: grad_norm_isnan)
  from h show "\<exists>u'. update_core env device u = Inr u' \<and> opt_t u' = Suc (opt_t u) \<and>
            target_params u' =
              optimizer_update env (target_params u) (backward env (target_params u) l)"
    by (cases "iter_next env (train_iter u)")
       (simp add: update_core_def Let_def apply_or_skip_update [OF n])
next
  assume h: "converter env (fst (iter_next env (train_iter u))) device = Inr x \<and>
      forward env (target_params u) x = l \<and>
      fl_less l CTC_LOSS_THRESHOLD \<and> \<not> isnan l \<and>
      has_nan (backward env (target_params u) l)"
  then have n: "isnan (grad_norm_of (backward env (target_params u) l))"
    by (simp add: grad_norm_isnan)
  from h show "\<exists>u'. update_core env device u = Inr u' \<and> opt_t u' = opt_t u \<and>
            target_params u' = target_params u"
    by (cases "iter_next env (train_iter u)")
       (simp add: update_core_def Let_def apply_or_skip_nan [OF n])
qed

theorem loss_threshold_only_reports_witness:
  "e2e_call (toy_nets (Fin 30000) (Fin 2)) (toy_e2e (1 / 2)) 0 0 0 []
     = Inr (Loss (Fin 15001),
            \<lparr>mtlalpha = 1 / 2, flag_return = False, self_acc = Some (Fin 1),
               self_loss = Some (Fin 15001)\<rparr>, []) \<and>
   e2e_call (toy_nets NaN (Fin 2)) (toy_e2e 1) 0 0 0 []
     = Inr (Loss NaN,
            \<lparr>mtlalpha = 1, flag_return = False, self_acc = None, self_loss = Some NaN\<rparr>, []) \<and>
   e2e_call (toy_nets (Fin 30) (Fin 2)) (toy_e2e 0) 0 0 0 []
     = Inr (Loss (Fin 2),
            \<lparr>mtlalpha = 0, flag_return = False, self_acc = Some (Fin 1),
               self_loss = Some (Fin 2)\<rparr>,
            [(''loss_ctc'', None), (''loss_att'', Some (Fin 2)), (''acc'', Some (Fin 1)),
             (''loss'', Some (Fin 2))]) \<and>
   (\<exists>res self' reported'.
      e2e_call (toy_nets (Fin 30000) (Fin 2)) (toy_e2e (1 / 2)) 0 0 0 [] =
        Inr (res, self', reported') \<and>
      fl_less CTC_LOSS_THRESHOLD (loss_of res) \<and> reported' = []) \<and>
   (\<exists>u'. update_core (toy_env (Fin 20000)) 0 toy_updater = Inr u' \<and>
         opt_t u' = Suc (opt_t toy_updater)) \<and>
   (\<exists>u'. update_core (toy_env NaN) 0 toy_updater = Inr u' \<and> opt_t u' = opt_t toy_updater)"
proof -
  have a: "e2e_call (toy_nets (Fin 30000) (Fin 2)) (toy_e2e (1 / 2)) 0 0 0 []
     = Inr (Loss (Fin 15001),
            \<lparr>mtlalpha = 1 / 2, flag_return = False, self_acc = Some (Fin 1),
               self_loss = Some (Fin 15001)\<rparr>, [])"
    by (simp add: e2e_call_eq mtl_loss_def toy_nets_def toy_e2e_def CTC_LOSS_THRESHOLD_def)
  have b: "e2e_call (toy_nets NaN (Fin 2)) (toy_e2e 1) 0 0 0 []
     = Inr (Loss NaN,
            \<lparr>mtlalpha = 1, flag_return = False, self_acc = None, self_loss = Some NaN\<rparr>, [])"
    by (simp add: e2e_call_eq mtl_loss_def toy_nets_def toy_e2e_def CTC_LOSS_THRESHOLD_def)
  have c: "e2e_call (toy_nets (Fin 30) (Fin 2)) (toy_e2e 0) 0 0 0 []
     = Inr (Loss (Fin 2),
            \<lparr>mtlalpha = 0, flag_return = False, self_acc = Some (Fin 1),
               self_loss = Some (Fin 2)\<rparr>,
            [(''loss_ctc'', None), (''loss_att'', Some (Fin 2)), (''acc'', Some (Fin 1)),
             (''loss'', Some (Fin 2))])"
    by (simp add: e2e_call_eq mtl_loss_def toy_nets_def toy_e2e_def CTC_LOSS_THRESHOLD_def
        isnan_def)
  have big: "fl_less CTC_LOSS_THRESHOLD (Fin 15001)" "fl_less CTC_LOSS_THRESHOLD (Fin 20000)"
    by (simp_all add: CTC_LOSS_THRESHOLD_def)
  have conv: "converter (toy_env g) (fst (iter_next (toy_env g) (train_iter toy_updater))) 0
                = Inr 0" for g
    by (simp add: toy_env_def toy_updater_def)
  have fw: "forward (toy_env g) (target_params toy_updater) 0 = g" for g
    by (simp add: toy_env_def)
  have nn: "\<not> has_nan (backward (toy_env (Fin 20000)) (target_params toy_updater) (Fin 20000))"
    by (simp add: has_nan_def toy_env_def)
  note inst = loss_threshold_only_reports [where nets = "toy_nets (Fin 30000) (Fin 2)"
      and self = "toy_e2e (1 / 2)" and xs = 0 and ilens = 0 and ys = 0 and reported = "[]"
      and env = "toy_env (Fin 20000)" and u = toy_updater
      and device = 0 and x = 0 and l = "Fin 20000"]
  from inst a big
  have d: "\<exists>res self' reported'.
      e2e_call (toy_nets (Fin 30000) (Fin 2)) (toy_e2e (1 / 2)) 0 0 0 [] =
        Inr (res, self', reported') \<and>
      fl_less CTC_LOSS_THRESHOLD (loss_of res) \<and> reported' = []"
    by auto
  from inst conv [of "Fin 20000"] fw [of "Fin 20000"] nn big(2)
  have e: "\<exists>u'. update_core (toy_env (Fin 20000)) 0 toy_updater = Inr u' \<and>
         opt_t u' = Suc (opt_t toy_updater)"
    by blast
  have f: "\<exists>u'. update_core (toy_env NaN) 0 toy_updater = Inr u' \<and> opt_t u' = opt_t toy_updater"
    by (simp add: update_core_def toy_env_def toy_updater_def apply_or_skip_def
        grad_norm_of_def sum_sqnorm_def dot_def isnan_def)
  from a b c d e f show ?thesis by blast
qed

end
